theory Spec2Isabelle
  imports Complex_Main
begin

section \<open>Data model of the relationship graph\<close>

text \<open>
  The pedigree graph of \<^verbatim>\<open>relationship_graph.cpp\<close> is a Boost adjacency list with
  vector storage: a vertex is its position, its properties are the bundle
  \<open>label, sex, ploidy, type\<close>; an edge carries \<open>length, type\<close>. The graph is
  modelled as the list of vertex bundles and the list of edges in the order of their
  insertion. Parallel edges are allowed, as in the source.

  Edge lengths are \<^verbatim>\<open>float\<close> in the source and the two rates are \<^verbatim>\<open>double\<close>;
  \<^verbatim>\<open>lengths[e] *= mu\<close> rounds the product to a \<^verbatim>\<open>float\<close>, and so does the sum
  of two lengths. The model is polymorphic in the type of these numbers: the pipeline asks
  of it a one (the default length), an addition and a multiplication, and uses no law of
  them, so that what is proved of the lengths holds for every reading of the three, the
  rounding operations of the source among them. The examples are evaluated at type
  \<open>real\<close>, on small integers.
\<close>

datatype Sex = Autosomal | Male | Female | Unknown

datatype VertexType = Founder | Germline | Somatic | Sample

datatype EdgeFlag = GERM_EDGE | SOMA_EDGE | LIB_EDGE

text \<open>\<^verbatim>\<open>EdgeType\<close> is a bit set over the three flags: \<^verbatim>\<open>a | b\<close> is the union and
  \<^verbatim>\<open>t & GERM_EDGE\<close> tests membership.\<close>

type_synonym EdgeType = "EdgeFlag set"

datatype InheritanceModel =
  Autosomal_Model | XLinked | YLinked | WLinked | ZLinked | Maternal | Paternal
  | Unknown_Model nat

record vertex_info =
  vertex_label :: string
  vertex_sex :: Sex
  vertex_ploidy :: int
  vertex_type :: VertexType

datatype 'l edge =
  Edge (source: nat) (target: nat) (edge_length: 'l) (edge_type: EdgeType)

record 'l graph =
  vprops :: "vertex_info list"
  edges :: "'l edge list"

datatype error =
  PedigreeInvalid | SomaticParseError | InvalidSex | ModelUnsupported | NotADag
  | OutOfRangeRead | IteratorInvalidated | InvalidHandle | AssertionFailed

subsection \<open>Graph primitives\<close>

definition num_vertices :: "'l graph \<Rightarrow> nat" where
  "num_vertices g = length (vprops g)"

definition in_edges :: "nat \<Rightarrow> 'l graph \<Rightarrow> 'l edge list" where
  "in_edges v g = filter (\<lambda>e. target e = v) (edges g)"

definition out_edges :: "nat \<Rightarrow> 'l graph \<Rightarrow> 'l edge list" where
  "out_edges v g = filter (\<lambda>e. source e = v) (edges g)"

definition in_degree :: "nat \<Rightarrow> 'l graph \<Rightarrow> nat" where
  "in_degree v g = length (in_edges v g)"

definition out_degree :: "nat \<Rightarrow> 'l graph \<Rightarrow> nat" where
  "out_degree v g = length (out_edges v g)"

definition degree :: "nat \<Rightarrow> 'l graph \<Rightarrow> nat" where
  "degree v g = in_degree v g + out_degree v g"

definition add_vertex :: "vertex_info \<Rightarrow> 'l graph \<Rightarrow> 'l graph" where
  "add_vertex p g = g\<lparr>vprops := vprops g @ [p]\<rparr>"

definition add_edge :: "nat \<Rightarrow> nat \<Rightarrow> 'l \<Rightarrow> EdgeType \<Rightarrow> 'l graph \<Rightarrow> 'l graph" where
  "add_edge u v len ty g = g\<lparr>edges := edges g @ [Edge u v len ty]\<rparr>"

definition remove_edge_if :: "('l edge \<Rightarrow> bool) \<Rightarrow> 'l graph \<Rightarrow> 'l graph" where
  "remove_edge_if P g = g\<lparr>edges := filter (\<lambda>e. \<not> P e) (edges g)\<rparr>"

definition clear_vertex :: "nat \<Rightarrow> 'l graph \<Rightarrow> 'l graph" where
  "clear_vertex v g = remove_edge_if (\<lambda>e. source e = v \<or> target e = v) g"

definition clear_in_edges :: "nat \<Rightarrow> 'l graph \<Rightarrow> 'l graph" where
  "clear_in_edges v g = remove_edge_if (\<lambda>e. target e = v) g"

definition sexes :: "'l graph \<Rightarrow> nat \<Rightarrow> Sex" where
  "sexes g v = vertex_sex (vprops g ! v)"

definition ploidies :: "'l graph \<Rightarrow> nat \<Rightarrow> int" where
  "ploidies g v = vertex_ploidy (vprops g ! v)"

definition types :: "'l graph \<Rightarrow> nat \<Rightarrow> VertexType" where
  "types g v = vertex_type (vprops g ! v)"

definition labels :: "'l graph \<Rightarrow> nat \<Rightarrow> string" where
  "labels g v = vertex_label (vprops g ! v)"

definition put_ploidy :: "nat \<Rightarrow> int \<Rightarrow> 'l graph \<Rightarrow> 'l graph" where
  "put_ploidy v p g = g\<lparr>vprops := (vprops g)[v := (vprops g ! v)\<lparr>vertex_ploidy := p\<rparr>]\<rparr>"

definition put_sex :: "nat \<Rightarrow> Sex \<Rightarrow> 'l graph \<Rightarrow> 'l graph" where
  "put_sex v s g = g\<lparr>vprops := (vprops g)[v := (vprops g ! v)\<lparr>vertex_sex := s\<rparr>]\<rparr>"

definition put_type :: "nat \<Rightarrow> VertexType \<Rightarrow> 'l graph \<Rightarrow> 'l graph" where
  "put_type v t g = g\<lparr>vprops := (vprops g)[v := (vprops g ! v)\<lparr>vertex_type := t\<rparr>]\<rparr>"

section \<open>Inheritance-model pruner\<close>

text \<open>Each \<^verbatim>\<open>prune_*\<close> first removes germline edges selected by a predicate on the
  sexes of the end points, then walks the vertices in index order.\<close>

definition is_x :: "'l graph \<Rightarrow> 'l edge \<Rightarrow> bool" where
  "is_x g e = (if GERM_EDGE \<notin> edge_type e then False
     else sexes g (source e) = Female \<or> sexes g (target e) = Female)"

definition is_y :: "'l graph \<Rightarrow> 'l edge \<Rightarrow> bool" where
  "is_y g e = (if GERM_EDGE \<notin> edge_type e then False
     else sexes g (source e) = Male \<and> sexes g (target e) = Male)"

definition is_z :: "'l graph \<Rightarrow> 'l edge \<Rightarrow> bool" where
  "is_z g e = (if GERM_EDGE \<notin> edge_type e then False
     else sexes g (source e) = Male \<or> sexes g (target e) = Male)"

definition is_w :: "'l graph \<Rightarrow> 'l edge \<Rightarrow> bool" where
  "is_w g e = (if GERM_EDGE \<notin> edge_type e then False
     else sexes g (source e) = Female \<and> sexes g (target e) = Female)"

text \<open>The predicate of \<^verbatim>\<open>prune_maternal\<close>.\<close>

definition is_p :: "'l graph \<Rightarrow> 'l edge \<Rightarrow> bool" where
  "is_p g e = (if GERM_EDGE \<notin> edge_type e then False
     else sexes g (source e) = Male)"

text \<open>The predicate of \<^verbatim>\<open>prune_paternal\<close>: the source compares with
  \<^verbatim>\<open>Sex::Male\<close> here as well.\<close>

definition is_m :: "'l graph \<Rightarrow> 'l edge \<Rightarrow> bool" where
  "is_m g e = (if GERM_EDGE \<notin> edge_type e then False
     else sexes g (source e) = Male)"

text \<open>The vertex loops of the sex-linked models. The loop stops at the first vertex of
  unresolved sex that still has an out-edge.\<close>

fun ylinked_loop :: "nat list \<Rightarrow> 'l graph \<Rightarrow> error + 'l graph" where
  "ylinked_loop [] g = Inr g"
| "ylinked_loop (v # vs) g =
     (case sexes g v of
        Female \<Rightarrow> ylinked_loop vs (put_ploidy v 0 (clear_vertex v g))
      | Male \<Rightarrow> ylinked_loop vs (put_ploidy v 1 g)
      | _ \<Rightarrow> if out_degree v g \<noteq> 0 then Inl InvalidSex else ylinked_loop vs g)"

fun xlinked_loop :: "nat list \<Rightarrow> 'l graph \<Rightarrow> error + 'l graph" where
  "xlinked_loop [] g = Inr g"
| "xlinked_loop (v # vs) g =
     (case sexes g v of
        Female \<Rightarrow> xlinked_loop vs g
      | Male \<Rightarrow> xlinked_loop vs (put_ploidy v 1 g)
      | _ \<Rightarrow> if out_degree v g \<noteq> 0 then Inl InvalidSex else xlinked_loop vs g)"

fun wlinked_loop :: "nat list \<Rightarrow> 'l graph \<Rightarrow> error + 'l graph" where
  "wlinked_loop [] g = Inr g"
| "wlinked_loop (v # vs) g =
     (case sexes g v of
        Male \<Rightarrow> wlinked_loop vs (put_ploidy v 0 (clear_vertex v g))
      | Female \<Rightarrow> wlinked_loop vs (put_ploidy v 1 g)
      | _ \<Rightarrow> if out_degree v g \<noteq> 0 then Inl InvalidSex else wlinked_loop vs g)"

fun zlinked_loop :: "nat list \<Rightarrow> 'l graph \<Rightarrow> error + 'l graph" where
  "zlinked_loop [] g = Inr g"
| "zlinked_loop (v # vs) g =
     (case sexes g v of
        Male \<Rightarrow> zlinked_loop vs g
      | Female \<Rightarrow> zlinked_loop vs (put_ploidy v 1 g)
      | _ \<Rightarrow> if out_degree v g \<noteq> 0 then Inl InvalidSex else zlinked_loop vs g)"

definition all_ploidy_one :: "'l graph \<Rightarrow> 'l graph" where
  "all_ploidy_one g = fold (\<lambda>v. put_ploidy v 1) [0..<num_vertices g] g"

definition prune_autosomal :: "'l graph \<Rightarrow> 'l graph" where
  "prune_autosomal g = g"

definition prune_ylinked :: "'l graph \<Rightarrow> error + 'l graph" where
  "prune_ylinked g = ylinked_loop [0..<num_vertices g] (remove_edge_if (is_x g) g)"

definition prune_xlinked :: "'l graph \<Rightarrow> error + 'l graph" where
  "prune_xlinked g = xlinked_loop [0..<num_vertices g] (remove_edge_if (is_y g) g)"

definition prune_wlinked :: "'l graph \<Rightarrow> error + 'l graph" where
  "prune_wlinked g = wlinked_loop [0..<num_vertices g] (remove_edge_if (is_z g) g)"

definition prune_zlinked :: "'l graph \<Rightarrow> error + 'l graph" where
  "prune_zlinked g = zlinked_loop [0..<num_vertices g] (remove_edge_if (is_w g) g)"

definition prune_maternal :: "'l graph \<Rightarrow> 'l graph" where
  "prune_maternal g = all_ploidy_one (remove_edge_if (is_p g) g)"

definition prune_paternal :: "'l graph \<Rightarrow> 'l graph" where
  "prune_paternal g = all_ploidy_one (remove_edge_if (is_m g) g)"

fun prune :: "'l graph \<Rightarrow> InheritanceModel \<Rightarrow> error + 'l graph" where
  "prune g Autosomal_Model = Inr (prune_autosomal g)"
| "prune g YLinked = prune_ylinked g"
| "prune g XLinked = prune_xlinked g"
| "prune g WLinked = prune_wlinked g"
| "prune g ZLinked = prune_zlinked g"
| "prune g Maternal = Inr (prune_maternal g)"
| "prune g Paternal = Inr (prune_paternal g)"
| "prune g (Unknown_Model n) = Inl ModelUnsupported"

section \<open>Priority queue of the elimination planner\<close>

text \<open>A queue record is the pair \<open>(fill_in, vertex)\<close>. \<^verbatim>\<open>record_cmp_t\<close> is the
  ``less than'' of the Boost heap, whose \<^verbatim>\<open>top()\<close> is a greatest element.\<close>

type_synonym record_t = "int \<times> nat"

definition record_cmp_t :: "record_t \<Rightarrow> record_t \<Rightarrow> bool" where
  "record_cmp_t a b = (if fst a = fst b then snd a < snd b else fst a > fst b)"

text \<open>\<^verbatim>\<open>top()\<close> of a heap holding the given records: the record that compares
  below no other one. The heap of an empty queue has no top.\<close>

fun heap_top :: "record_t list \<Rightarrow> record_t option" where
  "heap_top [] = None"
| "heap_top (x # xs) =
     (case heap_top xs of
        None \<Rightarrow> Some x
      | Some m \<Rightarrow> if record_cmp_t x m then Some m else Some x)"

section \<open>Graph builder\<close>

text \<open>The pedigree as the builder reads it: the ordered members, each with its name,
  sex, optional parents (by name), optional branch lengths, tags and Newick strings.\<close>

record 'l Member =
  name :: string
  sex :: Sex
  dad :: "string option"
  mom :: "string option"
  dad_length :: "'l option"
  mom_length :: "'l option"
  tags :: "string list"
  samples :: "string list"

type_synonym 'l Pedigree = "'l Member list"

definition NumberOfMembers :: "'l Pedigree \<Rightarrow> nat" where
  "NumberOfMembers ped = length ped"

definition GetMember :: "'l Pedigree \<Rightarrow> nat \<Rightarrow> 'l Member" where
  "GetMember ped i = ped ! i"

text \<open>Modelled from the spec: \<^verbatim>\<open>Pedigree::LookupMemberPosition\<close>, whose definition is
  not among the sources. It gives the position of the member of that name, and a value
  \<open>\<ge> NumberOfMembers\<close> for an unknown name.\<close>

fun LookupMemberPosition :: "'l Pedigree \<Rightarrow> string \<Rightarrow> nat" where
  "LookupMemberPosition [] nm = 0"
| "LookupMemberPosition (m # ms) nm =
     (if name m = nm then 0 else Suc (LookupMemberPosition ms nm))"

text \<open>\<^verbatim>\<open>boost::algorithm::iequals\<close>: equality of strings up to the case of ASCII letters.\<close>

definition tolower :: "char \<Rightarrow> char" where
  "tolower c = (let n = (of_char c :: nat) in
     if 65 \<le> n \<and> n \<le> 90 then char_of (n + 32) else c)"

definition iequals :: "string \<Rightarrow> string \<Rightarrow> bool" where
  "iequals a b = (map tolower a = map tolower b)"

definition has_tag :: "'l Member \<Rightarrow> string \<Rightarrow> bool" where
  "has_tag member tag = list_ex (\<lambda>a. iequals a tag) (tags member)"

definition value_or :: "'a option \<Rightarrow> 'a \<Rightarrow> 'a" where
  "value_or x d = (case x of None \<Rightarrow> d | Some y \<Rightarrow> y)"

text \<open>\<^verbatim>\<open>get(boost::vertex_sex, graph, v)\<close> indexes the vertex vector; the source does not
  check the index, and a read past the end is an error of the model.\<close>

definition get_vertex_sex :: "'l graph \<Rightarrow> nat \<Rightarrow> error + Sex" where
  "get_vertex_sex g v = (if v < num_vertices g then Inr (sexes g v) else Inl OutOfRangeRead)"

definition get_vertex_ploidy :: "'l graph \<Rightarrow> nat \<Rightarrow> error + int" where
  "get_vertex_ploidy g v =
     (if v < num_vertices g then Inr (ploidies g v) else Inl OutOfRangeRead)"

text \<open>The three branches of the loop body of \<^verbatim>\<open>add_edges_to_pedigree_graph\<close>, in the
  order of the statements of the source.\<close>

definition add_clone_edges :: "('l::one) Pedigree \<Rightarrow> 'l Member \<Rightarrow> nat \<Rightarrow> 'l graph \<Rightarrow> error + 'l graph" where
  "add_clone_edges ped member v g =
     (if dad member \<noteq> None \<and> mom member \<noteq> None then Inl PedigreeInvalid
      else
        let (parent, len) =
          (case dad member of
             Some d \<Rightarrow> (LookupMemberPosition ped d, value_or (dad_length member) 1)
           | None \<Rightarrow> (LookupMemberPosition ped (the (mom member)),
                       value_or (mom_length member) 1))
        in if parent \<ge> NumberOfMembers ped then Inl PedigreeInvalid
           else
             let g1 = add_edge parent v len {GERM_EDGE} g in
             (case get_vertex_ploidy g1 parent of
                Inl e \<Rightarrow> Inl e
              | Inr ploidy \<Rightarrow>
                  let g2 = put_ploidy v ploidy g1 in
                  (case get_vertex_sex g2 parent of
                     Inl e \<Rightarrow> Inl e
                   | Inr s \<Rightarrow> Inr (put_sex v s g2))))"

definition add_gamete_edges :: "('l::one) Pedigree \<Rightarrow> 'l Member \<Rightarrow> nat \<Rightarrow> 'l graph \<Rightarrow> error + 'l graph" where
  "add_gamete_edges ped member v g =
     (if dad member \<noteq> None \<and> mom member \<noteq> None then Inl PedigreeInvalid
      else
        (case dad member of
           Some d \<Rightarrow>
             let parent = LookupMemberPosition ped d;
                 len = value_or (dad_length member) 1
             in (case get_vertex_sex g parent of
                   Inl e \<Rightarrow> Inl e
                 | Inr s \<Rightarrow>
                     if s = Female then Inl PedigreeInvalid
                     else if parent \<ge> NumberOfMembers ped then Inl PedigreeInvalid
                     else Inr (add_edge parent v len {GERM_EDGE} g))
         | None \<Rightarrow>
             let parent = LookupMemberPosition ped (the (mom member));
                 len = value_or (mom_length member) 1
             in (case get_vertex_sex g parent of
                   Inl e \<Rightarrow> Inl e
                 | Inr s \<Rightarrow>
                     if s = Male then Inl PedigreeInvalid
                     else if parent \<ge> NumberOfMembers ped then Inl PedigreeInvalid
                     else Inr (add_edge parent v len {GERM_EDGE} g))))"

definition add_diploid_edges :: "('l::one) Pedigree \<Rightarrow> 'l Member \<Rightarrow> nat \<Rightarrow> 'l graph \<Rightarrow> error + 'l graph" where
  "add_diploid_edges ped member v g =
     (case dad member of
        None \<Rightarrow> Inl PedigreeInvalid
      | Some d \<Rightarrow>
     (case mom member of
        None \<Rightarrow> Inl PedigreeInvalid
      | Some m \<Rightarrow>
          let dad_pos = LookupMemberPosition ped d;
              mom_pos = LookupMemberPosition ped m;
              dad_len = value_or (dad_length member) 1;
              mom_len = value_or (mom_length member) 1
          in if dad_pos \<ge> NumberOfMembers ped then Inl PedigreeInvalid
             else if mom_pos \<ge> NumberOfMembers ped then Inl PedigreeInvalid
             else
               (case get_vertex_sex g dad_pos of
                  Inl e \<Rightarrow> Inl e
                | Inr sd \<Rightarrow>
                    if sd = Female then Inl PedigreeInvalid
                    else
                      (case get_vertex_sex g mom_pos of
                         Inl e \<Rightarrow> Inl e
                       | Inr sm \<Rightarrow>
                           if sm = Male then Inl PedigreeInvalid
                           else Inr (add_edge mom_pos v mom_len {GERM_EDGE}
                                      (add_edge dad_pos v dad_len {GERM_EDGE} g))))))"

definition add_edges_body :: "('l::one) Pedigree \<Rightarrow> nat \<Rightarrow> 'l graph \<Rightarrow> error + 'l graph" where
  "add_edges_body ped v g =
     (let member = GetMember ped v in
      if has_tag member ''founder'' \<or> (dad member = None \<and> mom member = None) then Inr g
      else
        let ploidy = ploidies g v in
        if ploidy = 0 then add_clone_edges ped member v g
        else if ploidy = 1 then add_gamete_edges ped member v g
        else add_diploid_edges ped member v g)"

fun add_edges_loop :: "('l::one) Pedigree \<Rightarrow> nat list \<Rightarrow> 'l graph \<Rightarrow> error + 'l graph" where
  "add_edges_loop ped [] g = Inr g"
| "add_edges_loop ped (v # vs) g =
     (case add_edges_body ped v g of
        Inl e \<Rightarrow> Inl e
      | Inr g' \<Rightarrow> add_edges_loop ped vs g')"

definition add_edges_to_pedigree_graph :: "('l::one) Pedigree \<Rightarrow> 'l graph \<Rightarrow> error + 'l graph" where
  "add_edges_to_pedigree_graph ped g = add_edges_loop ped [0..<num_vertices g] g"

text \<open>The ploidy of a member: the first tag that names a ploidy decides; without one, a
  \<^verbatim>\<open>clone\<close> tag gives 0 and the default is 2.\<close>

fun first_ploidy_tag :: "string list \<Rightarrow> int option" where
  "first_ploidy_tag [] = None"
| "first_ploidy_tag (a # as) =
     (if iequals a ''haploid'' \<or> iequals a ''gamete''
         \<or> iequals a ''p=1'' \<or> iequals a ''ploidy=1'' then Some 1
      else if iequals a ''diploid'' \<or> iequals a ''p=2'' \<or> iequals a ''ploidy=2'' then Some 2
      else first_ploidy_tag as)"

definition get_ploidy :: "'l Member \<Rightarrow> int" where
  "get_ploidy member =
     (case first_ploidy_tag (tags member) of
        Some p \<Rightarrow> p
      | None \<Rightarrow> if list_ex (\<lambda>a. iequals a ''clone'') (tags member) then 0 else 2)"

definition member_vertex :: "'l Member \<Rightarrow> vertex_info" where
  "member_vertex member =
     \<lparr>vertex_label = name member, vertex_sex = sex member,
      vertex_ploidy = get_ploidy member, vertex_type = Germline\<rparr>"

text \<open>\<^verbatim>\<open>mutk::detail::parse_newick\<close> is defined outside the sources at hand; the builder
  takes it as a parameter. It is given the Newick text, the graph, the anchor vertex and
  the normalisation flag, and returns the graph with the somatic tree appended, or
  \<open>None\<close> where the source returns \<^verbatim>\<open>false\<close>.\<close>

type_synonym 'l newick_parser = "string \<Rightarrow> 'l graph \<Rightarrow> nat \<Rightarrow> bool \<Rightarrow> 'l graph option"

fun parse_samples :: "'l newick_parser \<Rightarrow> bool \<Rightarrow> nat \<Rightarrow> string list \<Rightarrow> 'l graph \<Rightarrow> error + 'l graph" where
  "parse_samples parse_newick normalize_somatic_trees i [] g = Inr g"
| "parse_samples parse_newick normalize_somatic_trees i (sample # rest) g =
     (case parse_newick sample g i normalize_somatic_trees of
        None \<Rightarrow> Inl SomaticParseError
      | Some g' \<Rightarrow> parse_samples parse_newick normalize_somatic_trees i rest g')"

fun add_somatic :: "'l newick_parser \<Rightarrow> bool \<Rightarrow> 'l Pedigree \<Rightarrow> nat list \<Rightarrow> 'l graph \<Rightarrow> error + 'l graph" where
  "add_somatic parse_newick normalize_somatic_trees ped [] g = Inr g"
| "add_somatic parse_newick normalize_somatic_trees ped (i # is) g =
     (case parse_samples parse_newick normalize_somatic_trees i (samples (GetMember ped i)) g of
        Inl e \<Rightarrow> Inl e
      | Inr g' \<Rightarrow> add_somatic parse_newick normalize_somatic_trees ped is g')"

definition mark_sample :: "string list \<Rightarrow> nat \<Rightarrow> 'l graph \<Rightarrow> 'l graph" where
  "mark_sample known v g =
     (if types g v \<noteq> Somatic then g
      else if labels g v \<in> set known then put_type v Sample g
      else g)"

definition mark_samples :: "string list \<Rightarrow> 'l graph \<Rightarrow> 'l graph" where
  "mark_samples known g = fold (mark_sample known) [0..<num_vertices g] g"

definition construct_pedigree_graph ::
  "('l::one) newick_parser \<Rightarrow> 'l Pedigree \<Rightarrow> string list \<Rightarrow> bool \<Rightarrow> error + 'l graph" where
  "construct_pedigree_graph parse_newick ped known_samples normalize_somatic_trees =
     (let g0 = \<lparr>vprops = map member_vertex ped, edges = []\<rparr> in
      case add_edges_to_pedigree_graph ped g0 of
        Inl e \<Rightarrow> Inl e
      | Inr g1 \<Rightarrow>
          (case add_somatic parse_newick normalize_somatic_trees ped
                  [0..<NumberOfMembers ped] g1 of
             Inl e \<Rightarrow> Inl e
           | Inr g2 \<Rightarrow> Inr (mark_samples known_samples g2)))"

section \<open>Edge-length scaler\<close>

definition update_edge_lengths :: "('l::times) graph \<Rightarrow> 'l \<Rightarrow> 'l \<Rightarrow> 'l graph" where
  "update_edge_lengths g mu_germ mu_soma =
     g\<lparr>edges := map (\<lambda>e. if GERM_EDGE \<in> edge_type e
                           then Edge (source e) (target e) (edge_length e * mu_germ) (edge_type e)
                           else Edge (source e) (target e) (edge_length e * mu_soma) (edge_type e))
                     (edges g)\<rparr>"

section \<open>Topological sort\<close>

text \<open>\<^verbatim>\<open>boost::topological_sort\<close> is a depth-first search over the vertices in index
  order that follows the out-edges in their order, emits a vertex when it is finished
  (so that descendants come first), and throws \<^verbatim>\<open>not_a_dag\<close> at a back edge. The
  search is written with its explicit stack of \<open>(vertex, out-neighbours left)\<close>.\<close>

datatype color = White | Gray | Black

definition whites :: "color list \<Rightarrow> nat" where
  "whites colors = length (filter (\<lambda>c. c = White) colors)"

lemma whites_update_le: "c \<noteq> White \<Longrightarrow> whites (colors[u := c]) \<le> whites colors"
  unfolding whites_def
proof (induction colors arbitrary: u)
  case Nil
  then show ?case by simp
next
  case (Cons a colors)
  then show ?case by (cases u) (auto simp: le_SucI)
qed

lemma whites_update_less:
  "c \<noteq> White \<Longrightarrow> w < length colors \<Longrightarrow> colors ! w = White \<Longrightarrow>
   whites (colors[w := c]) < whites colors"
  unfolding whites_def
proof (induction colors arbitrary: w)
  case Nil
  then show ?case by simp
next
  case (Cons a colors)
  show ?case
  proof (cases w)
    case 0
    then show ?thesis using Cons.prems by simp
  next
    case (Suc k)
    then show ?thesis using Cons.IH [of k] Cons.prems by auto
  qed
qed

function dfs_visit :: "(nat \<Rightarrow> nat list) \<Rightarrow> color list \<Rightarrow> (nat \<times> nat list) list \<Rightarrow> nat list
    \<Rightarrow> error + (color list \<times> nat list)" where
  "dfs_visit adj colors [] out = Inr (colors, out)"
| "dfs_visit adj colors ((u, []) # st) out = dfs_visit adj (colors[u := Black]) st (out @ [u])"
| "dfs_visit adj colors ((u, w # ws) # st) out =
     (if w < length colors then
        (case colors ! w of
           White \<Rightarrow> dfs_visit adj (colors[w := Gray]) ((w, adj w) # (u, ws) # st) out
         | Gray \<Rightarrow> Inl NotADag
         | Black \<Rightarrow> dfs_visit adj colors ((u, ws) # st) out)
      else Inl OutOfRangeRead)"
  by pat_completeness auto
termination
proof (relation "inv_image (less_than <*lex*> less_than)
    (\<lambda>(adj, colors, st, out). (whites colors, sum_list (map (\<lambda>(u, ws). Suc (length ws)) st)))",
    goal_cases)
  case 1
  show ?case by auto
next
  case (2 adj colors u st out)
  have "whites (colors[u := Black]) \<le> whites colors" by (rule whites_update_le) simp
  then show ?case by (auto simp: less_Suc_eq_le)
next
  case (3 adj colors u w ws st out)
  then show ?case using whites_update_less [of Gray w colors] by simp
next
  case (4 adj colors u w ws st out)
  then show ?case by simp
qed

fun dfs_roots :: "(nat \<Rightarrow> nat list) \<Rightarrow> nat list \<Rightarrow> color list \<Rightarrow> nat list \<Rightarrow> error + nat list" where
  "dfs_roots adj [] colors out = Inr out"
| "dfs_roots adj (u # us) colors out =
     (if colors ! u = White then
        (case dfs_visit adj (colors[u := Gray]) [(u, adj u)] out of
           Inl e \<Rightarrow> Inl e
         | Inr (colors', out') \<Rightarrow> dfs_roots adj us colors' out')
      else dfs_roots adj us colors out)"

definition adjacent_vertices :: "'l graph \<Rightarrow> nat \<Rightarrow> nat list" where
  "adjacent_vertices g v = map target (out_edges v g)"

definition topological_sort :: "'l graph \<Rightarrow> error + nat list" where
  "topological_sort g =
     dfs_roots (adjacent_vertices g) [0..<num_vertices g] (replicate (num_vertices g) White) []"

section \<open>Simplifier\<close>

text \<open>Pass A: a leaf that is not a sample is cleared.\<close>

definition cull_leaf :: "nat \<Rightarrow> 'l graph \<Rightarrow> 'l graph" where
  "cull_leaf v g =
     (if out_degree v g = 0 \<and> types g v \<noteq> Sample then clear_vertex v g else g)"

text \<open>Pass B: the in-edges of a germline vertex are cleared when each of its parents has
  no other edge.\<close>

definition unlink_founders :: "nat \<Rightarrow> 'l graph \<Rightarrow> 'l graph" where
  "unlink_founders v g =
     (if types g v \<noteq> Germline then g
      else if in_edges v g = [] then g
      else if list_all (\<lambda>e. degree (source e) g = 1) (in_edges v g) then clear_in_edges v g
      else g)"

text \<open>Pass C: a vertex with exactly one out-edge is bypassed: each of its in-edges is
  replaced by an edge from the grandparent to the child, whose length is the sum of the
  two lengths and whose type is the union of the two types.\<close>

definition bypass :: "nat \<Rightarrow> ('l::plus) graph \<Rightarrow> 'l graph" where
  "bypass v g =
     (if in_degree v g = 0 \<or> out_degree v g \<noteq> 1 then g
      else
        let in_edge_range = in_edges v g;
            out_edge = hd (out_edges v g);
            child = target out_edge
        in if in_degree child g + in_degree v g - 1 > 2 then g
           else if ploidies g child \<noteq> ploidies g v then g
           else
             let len = edge_length out_edge;
                 otype = edge_type out_edge
             in clear_vertex v
                  (fold (\<lambda>e. add_edge (source e) child (len + edge_length e) (otype \<union> edge_type e))
                     in_edge_range g))"

definition simplify :: "('l::plus) graph \<Rightarrow> error + 'l graph" where
  "simplify g =
     (case topological_sort g of
        Inl e \<Rightarrow> Inl e
      | Inr rev_topo_order \<Rightarrow>
          let topo_order = rev rev_topo_order;
              g1 = fold cull_leaf rev_topo_order g;
              g2 = fold unlink_founders topo_order g1
          in Inr (fold bypass topo_order g2))"

section \<open>Finalizer\<close>

definition founder_band :: "'l graph \<Rightarrow> nat \<Rightarrow> bool" where
  "founder_band g v = (in_degree v g = 0 \<and> out_degree v g > 0 \<and> types g v = Germline)"

definition germline_band :: "'l graph \<Rightarrow> nat \<Rightarrow> bool" where
  "germline_band g v = (in_degree v g > 0 \<and> types g v = Germline)"

definition somatic_band :: "'l graph \<Rightarrow> nat \<Rightarrow> bool" where
  "somatic_band g v = (degree v g > 0 \<and> types g v = Somatic)"

definition sample_band :: "'l graph \<Rightarrow> nat \<Rightarrow> bool" where
  "sample_band g v = (degree v g > 0 \<and> types g v = Sample)"

definition vertex_order :: "'l graph \<Rightarrow> nat list \<Rightarrow> nat list" where
  "vertex_order g topo_order =
     (let r = rev topo_order in
      filter (founder_band g) r @ filter (germline_band g) r
        @ filter (somatic_band g) r @ filter (sample_band g) r)"

text \<open>\<^verbatim>\<open>map_in_to_out\<close> starts at \<open>-1\<close> everywhere, here \<open>None\<close>.\<close>

definition map_in_to_out :: "nat \<Rightarrow> nat list \<Rightarrow> nat option list" where
  "map_in_to_out n order =
     fold (\<lambda>(v, w) m. m[v := Some w]) (zip order [0..<length order]) (replicate n None)"

fun copy_edges :: "nat option list \<Rightarrow> 'l edge list \<Rightarrow> error + 'l edge list" where
  "copy_edges m [] = Inr []"
| "copy_edges m (e # es) =
     (case (m ! source e, m ! target e) of
        (Some new_src, Some new_tgt) \<Rightarrow>
          (case copy_edges m es of
             Inl x \<Rightarrow> Inl x
           | Inr es' \<Rightarrow> Inr (Edge new_src new_tgt (edge_length e) (edge_type e) # es'))
      | _ \<Rightarrow> Inl AssertionFailed)"

definition suffix_label :: "vertex_info \<Rightarrow> vertex_info" where
  "suffix_label p =
     (if vertex_type p = Founder \<or> vertex_type p = Germline
        then p\<lparr>vertex_label := vertex_label p @ ''/z''\<rparr>
      else if vertex_type p = Somatic then p\<lparr>vertex_label := vertex_label p @ ''/t''\<rparr>
      else p)"

definition finalize :: "'l graph \<Rightarrow> error + 'l graph" where
  "finalize input =
     (case topological_sort input of
        Inl e \<Rightarrow> Inl e
      | Inr topo_order \<Rightarrow>
          let order = vertex_order input topo_order;
              m = map_in_to_out (num_vertices input) order
          in (case copy_edges m (edges input) of
                Inl e \<Rightarrow> Inl e
              | Inr es \<Rightarrow>
                  Inr \<lparr>vprops = map (\<lambda>v. suffix_label (vprops input ! v)) order,
                       edges = es\<rparr>))"

section \<open>Elimination planner\<close>

text \<open>A \<^verbatim>\<open>flat_set\<close> of vertices is a strictly ascending list.\<close>

definition fs_insert :: "nat \<Rightarrow> nat list \<Rightarrow> nat list" where
  "fs_insert x xs = (if x \<in> set xs then xs else insort x xs)"

definition fs_erase :: "nat \<Rightarrow> nat list \<Rightarrow> nat list" where
  "fs_erase x xs = removeAll x xs"

definition depends :: "'l graph \<Rightarrow> nat \<Rightarrow> nat list" where
  "depends g v = sort (map source (in_edges v g))"

text \<open>The potentials pushed for one vertex.\<close>

definition vertex_potentials :: "'l graph \<Rightarrow> nat \<Rightarrow> nat list list" where
  "vertex_potentials g v =
     (if out_degree v g = 0 then [[v]] else [])
     @ (if in_degree v g = 0 then [[v]] else [v # depends g v])"

text \<open>The vector of potentials is created with one empty entry for each vertex, and the
  loop appends to it.\<close>

definition potentials :: "'l graph \<Rightarrow> nat list list" where
  "potentials g =
     replicate (num_vertices g) []
     @ concat (map (vertex_potentials g) [0..<num_vertices g])"

fun pairs :: "'a list \<Rightarrow> ('a \<times> 'a) list" where
  "pairs [] = []"
| "pairs (x # xs) = map (Pair x) xs @ pairs xs"

definition link :: "nat \<times> nat \<Rightarrow> nat list list \<Rightarrow> nat list list" where
  "link ab nb =
     (let nb1 = nb[fst ab := fs_insert (snd ab) (nb ! fst ab)]
      in nb1[snd ab := fs_insert (fst ab) (nb1 ! snd ab)])"

definition closures :: "'l graph \<Rightarrow> nat list list" where
  "closures g =
     fold (\<lambda>p nb. fold link (pairs p) nb) (potentials g) (replicate (num_vertices g) [])"

definition fill_in_count :: "nat list list \<Rightarrow> nat \<Rightarrow> int" where
  "fill_in_count nb v =
     int (length (filter (\<lambda>ab. snd ab \<notin> set (nb ! fst ab)) (pairs (nb ! v))))"

record elim_state =
  neighbors :: "nat list list"
  handles :: "int option list"
  elim_order :: "nat list"

text \<open>The records in the queue: one for each vertex whose handle is live.\<close>

definition queue_of :: "int option list \<Rightarrow> record_t list" where
  "queue_of h =
     concat (map (\<lambda>v. case h ! v of None \<Rightarrow> [] | Some f \<Rightarrow> [(f, v)]) [0..<length h])"

text \<open>The first inner loop runs over \<open>k\<close>, a reference to \<^verbatim>\<open>neighbors[v]\<close>. For
  \<open>a \<noteq> v\<close> it changes another set, \<^verbatim>\<open>neighbors[a]\<close>. For \<open>a = v\<close> the statement
  \<^verbatim>\<open>neighbors[a].erase(v)\<close> erases from \<open>k\<close> itself inside the range-for over \<open>k\<close>, which
  invalidates the iterators of the loop: an error of the model.\<close>

fun update_cliques :: "int \<Rightarrow> nat \<Rightarrow> nat list \<Rightarrow> nat list \<Rightarrow> nat list list
    \<Rightarrow> error + nat list list" where
  "update_cliques score v k [] nb = Inr nb"
| "update_cliques score v k (a # as) nb =
     (if a = v then Inl IteratorInvalidated
      else
        let na = (if score > 0 then fold fs_insert k (nb ! a) else nb ! a)
        in update_cliques score v k as (nb[a := fs_erase v na]))"

text \<open>The second inner loop writes the new fill-in through the handle of each neighbour;
  the handle of an eliminated vertex is a default-constructed one.\<close>

fun update_queue :: "nat list \<Rightarrow> nat list list \<Rightarrow> int option list \<Rightarrow> error + int option list" where
  "update_queue [] nb h = Inr h"
| "update_queue (a # as) nb h =
     (if a < length h then
        (case h ! a of
           None \<Rightarrow> Inl InvalidHandle
         | Some f \<Rightarrow> update_queue as nb (h[a := Some (fill_in_count nb a)]))
      else Inl OutOfRangeRead)"

definition eliminate :: "int \<Rightarrow> nat \<Rightarrow> elim_state \<Rightarrow> error + elim_state" where
  "eliminate score v s =
     (let h1 = (handles s)[v := None];
          k = neighbors s ! v
      in case update_cliques score v k k (neighbors s) of
           Inl e \<Rightarrow> Inl e
         | Inr nb \<Rightarrow>
             (case update_queue (nb ! v) nb h1 of
                Inl e \<Rightarrow> Inl e
              | Inr h2 \<Rightarrow>
                  Inr \<lparr>neighbors = nb, handles = h2, elim_order = elim_order s @ [v]\<rparr>))"

definition live :: "int option list \<Rightarrow> nat" where
  "live h = length (filter (\<lambda>x. x \<noteq> None) h)"

lemma live_update_Some: "a < length h \<Longrightarrow> h ! a \<noteq> None \<Longrightarrow> live (h[a := Some f]) = live h"
  unfolding live_def
proof (induction h arbitrary: a)
  case Nil
  then show ?case by simp
next
  case (Cons x h)
  then show ?case by (cases a) auto
qed

lemma live_update_None: "v < length h \<Longrightarrow> h ! v \<noteq> None \<Longrightarrow> live (h[v := None]) < live h"
  unfolding live_def
proof (induction h arbitrary: v)
  case Nil
  then show ?case by simp
next
  case (Cons x h)
  show ?case
  proof (cases v)
    case 0
    then show ?thesis using Cons.prems by (simp add: less_Suc_eq_le)
  next
    case (Suc n)
    then show ?thesis using Cons.IH [of n] Cons.prems by auto
  qed
qed

lemma update_queue_live: "update_queue k nb h = Inr h' \<Longrightarrow> live h' = live h"
proof (induction k arbitrary: h)
  case Nil
  then show ?case by simp
next
  case (Cons a k)
  then show ?case
    by (auto split: if_splits option.splits simp: live_update_Some)
qed

lemma queue_of_mem: "(f, v) \<in> set (queue_of h) \<longleftrightarrow> v < length h \<and> h ! v = Some f"
  by (auto simp: queue_of_def split: option.splits)

lemma heap_top_in_queue: "heap_top q = Some m \<Longrightarrow> m \<in> set q"
  by (induction q arbitrary: m) (auto split: option.splits if_splits)

lemma eliminate_live:
  assumes "heap_top (queue_of (handles s)) = Some (score, v)"
    and "eliminate score v s = Inr s'"
  shows "live (handles s') < live (handles s)"
proof -
  have "(score, v) \<in> set (queue_of (handles s))"
    using assms(1) by (rule heap_top_in_queue)
  then have v: "v < length (handles s)" "handles s ! v \<noteq> None"
    by (simp_all add: queue_of_mem)
  obtain nb where nb: "update_cliques score v (neighbors s ! v) (neighbors s ! v) (neighbors s) = Inr nb"
    using assms(2) by (auto simp: eliminate_def Let_def split: sum.splits)
  then have "update_queue (nb ! v) nb ((handles s)[v := None]) = Inr (handles s')"
    using assms(2) by (auto simp: eliminate_def Let_def split: sum.splits)
  then have "live (handles s') = live ((handles s)[v := None])"
    by (rule update_queue_live)
  then show ?thesis using live_update_None [OF v] by simp
qed

function elim_loop :: "elim_state \<Rightarrow> error + elim_state" where
  "elim_loop s =
     (case heap_top (queue_of (handles s)) of
        None \<Rightarrow> Inr s
      | Some (score, v) \<Rightarrow>
          (case eliminate score v s of
             Inl e \<Rightarrow> Inl e
           | Inr s' \<Rightarrow> elim_loop s'))"
  by pat_completeness auto
termination
  by (relation "measure (\<lambda>s. live (handles s))") (auto simp: eliminate_live)

text \<open>The state at the entry of the elimination loop.\<close>

definition initial_state :: "'l graph \<Rightarrow> elim_state" where
  "initial_state g =
     (let nb = closures g in
      \<lparr>neighbors = nb,
       handles = map (\<lambda>v. Some (fill_in_count nb v)) [0..<num_vertices g],
       elim_order = []\<rparr>)"

section \<open>Junction-tree builder\<close>

record junction_tree =
  cliques :: "nat list list"
  is_intersection_node :: "bool list"
  tree_edges :: "(nat \<times> nat) list"

text \<open>\<^verbatim>\<open>boost::range::find\<close>: the position of the first clique equal to the set.\<close>

fun find_clique :: "nat list list \<Rightarrow> nat list \<Rightarrow> nat option" where
  "find_clique [] s = None"
| "find_clique (c # cs) s =
     (if c = s then Some 0 else map_option Suc (find_clique cs s))"

text \<open>\<^verbatim>\<open>boost::range::includes\<close> on two ascending ranges.\<close>

definition range_includes :: "nat list \<Rightarrow> nat list \<Rightarrow> bool" where
  "range_includes x s = (set s \<subseteq> set x)"

text \<open>\<^verbatim>\<open>min_element\<close> over the cliques that include the set, by size: the first of the
  smallest ones, if there is any.\<close>

definition min_superset :: "nat list list \<Rightarrow> nat list \<Rightarrow> nat option" where
  "min_superset cl s =
     (case filter (\<lambda>i. range_includes (cl ! i) s) [0..<length cl] of
        [] \<Rightarrow> None
      | i # rest \<Rightarrow>
          Some (fold (\<lambda>j best. if length (cl ! j) < length (cl ! best) then j else best)
                  rest i))"

definition add_junction :: "nat list list \<Rightarrow> nat \<Rightarrow> junction_tree \<Rightarrow> junction_tree" where
  "add_junction nb v t =
     (let j = length (cliques t);
          s = nb ! v
      in case find_clique (cliques t) s of
           Some pos \<Rightarrow>
             \<lparr>cliques = cliques t @ [fs_insert v s],
              is_intersection_node = (is_intersection_node t)[pos := True] @ [False],
              tree_edges = tree_edges t @ [(pos, j)]\<rparr>
         | None \<Rightarrow>
             (case min_superset (cliques t) s of
                Some pos1 \<Rightarrow>
                  \<lparr>cliques = cliques t @ [s, fs_insert v s],
                   is_intersection_node = is_intersection_node t @ [True, False],
                   tree_edges = tree_edges t @ [(pos1, j), (j, Suc j)]\<rparr>
              | None \<Rightarrow>
                  \<lparr>cliques = cliques t @ [fs_insert v s],
                   is_intersection_node = is_intersection_node t @ [False],
                   tree_edges = tree_edges t\<rparr>))"

definition build_junction_tree :: "nat list list \<Rightarrow> nat list \<Rightarrow> junction_tree" where
  "build_junction_tree nb order =
     fold (add_junction nb) (rev order)
       \<lparr>cliques = [], is_intersection_node = [], tree_edges = []\<rparr>"

text \<open>\<^verbatim>\<open>peeling_order\<close> keeps its results in local variables; the model returns the
  elimination order and the junction tree.\<close>

definition peeling_order :: "'l graph \<Rightarrow> error + (nat list \<times> junction_tree)" where
  "peeling_order g =
     (case elim_loop (initial_state g) of
        Inl e \<Rightarrow> Inl e
      | Inr s \<Rightarrow> Inr (elim_order s, build_junction_tree (neighbors s) (elim_order s)))"

section \<open>The relationship graph\<close>

text \<open>The members \<^verbatim>\<open>inheritance_model_\<close> and \<^verbatim>\<open>graph_\<close> of the class.\<close>

record 'l RelationshipGraph =
  member_inheritance_model :: InheritanceModel
  member_graph :: "'l graph"

text \<open>The local variable \<^verbatim>\<open>graph\<close> of \<^verbatim>\<open>Construct\<close> at the call of
  \<^verbatim>\<open>finalize\<close>: built, scaled, simplified and pruned.\<close>

definition pruned_graph ::
  "('l::{one,plus,times}) newick_parser \<Rightarrow> 'l Pedigree \<Rightarrow> string list \<Rightarrow> InheritanceModel \<Rightarrow> 'l \<Rightarrow> 'l \<Rightarrow> bool
     \<Rightarrow> error + 'l graph" where
  "pruned_graph parse_newick pedigree known_samples model mu mu_somatic normalize_somatic_trees =
     (case construct_pedigree_graph parse_newick pedigree known_samples
             normalize_somatic_trees of
        Inl e \<Rightarrow> Inl e
      | Inr g0 \<Rightarrow>
     (case simplify (update_edge_lengths g0 mu mu_somatic) of
        Inl e \<Rightarrow> Inl e
      | Inr g1 \<Rightarrow> prune g1 model))"

definition Construct ::
  "('l::{one,plus,times}) newick_parser \<Rightarrow> 'l Pedigree \<Rightarrow> string list \<Rightarrow> InheritanceModel \<Rightarrow> 'l \<Rightarrow> 'l \<Rightarrow> bool
     \<Rightarrow> error + (bool \<times> 'l RelationshipGraph)" where
  "Construct parse_newick pedigree known_samples model mu mu_somatic normalize_somatic_trees =
     (case pruned_graph parse_newick pedigree known_samples model mu mu_somatic
             normalize_somatic_trees of
        Inl e \<Rightarrow> Inl e
      | Inr g2 \<Rightarrow>
     (case finalize g2 of
        Inl e \<Rightarrow> Inl e
      | Inr g3 \<Rightarrow>
     (case peeling_order g3 of
        Inl e \<Rightarrow> Inl e
      | Inr r \<Rightarrow> Inr (True, \<lparr>member_inheritance_model = model, member_graph = g3\<rparr>))))"

text \<open>The four sections of \<^verbatim>\<open>PrintGraph\<close>, each the list of the vertices it prints.\<close>

record printed_graph =
  founding :: "nat list"
  germline :: "nat list"
  somatic :: "nat list"
  sample :: "nat list"

definition PrintGraph :: "'l RelationshipGraph \<Rightarrow> printed_graph" where
  "PrintGraph rg =
     (let g = member_graph rg; vertex_range = [0..<num_vertices g] in
      \<lparr>founding = filter (\<lambda>v. in_degree v g = 0) vertex_range,
       germline = filter (\<lambda>v. in_degree v g > 0 \<and> types g v = Germline) vertex_range,
       somatic = filter (\<lambda>v. in_degree v g > 0 \<and> types g v = Somatic) vertex_range,
       sample = filter (\<lambda>v. in_degree v g > 0 \<and> types g v = Sample) vertex_range\<rparr>)"

section \<open>Predicates of the statements\<close>

text \<open>The invariant of the depth-first search: the vertices on the stack are distinct and
  Gray, the vertices emitted are distinct and Black.\<close>

definition dfs_inv :: "color list \<Rightarrow> (nat \<times> nat list) list \<Rightarrow> nat list \<Rightarrow> bool" where
  "dfs_inv colors st out \<longleftrightarrow>
     distinct (map fst st)
     \<and> (\<forall>u \<in> set (map fst st). u < length colors \<and> colors ! u = Gray)
     \<and> distinct out
     \<and> (\<forall>u \<in> set out. u < length colors \<and> colors ! u = Black)"

text \<open>No vertex of the graph carries \<^verbatim>\<open>VertexType::Founder\<close>.\<close>

definition founder_free :: "'l graph \<Rightarrow> bool" where
  "founder_free g = (Founder \<notin> set (map vertex_type (vprops g)))"

text \<open>The graph with another value for the length of each edge.\<close>

definition map_lengths :: "('a \<Rightarrow> 'b) \<Rightarrow> 'a graph \<Rightarrow> 'b graph" where
  "map_lengths h g = \<lparr>vprops = vprops g, edges = map (map_edge h) (edges g)\<rparr>"

definition map_result :: "('a \<Rightarrow> 'b) \<Rightarrow> error + 'a graph \<Rightarrow> error + 'b graph" where
  "map_result h r = (case r of Inl e \<Rightarrow> Inl e | Inr g \<Rightarrow> Inr (map_lengths h g))"

text \<open>Contracted chains. An edge of the simplified graph stands for a chain of edges of the
  built graph: for one edge at first, and, where the simplifier bypasses a vertex, for the
  chain of the in-edge followed by the chain of the out-edge. The chain is kept as the
  expression that the simplifier forms for the length: \<open>Joined out in\<close> where the source
  has \<^verbatim>\<open>len+lengths[e]\<close>, \<^verbatim>\<open>len\<close> being the length of the out-edge.\<close>

datatype 'l chain = Branch "'l edge" | Joined "'l chain" "'l chain"

instantiation chain :: (type) plus
begin

definition plus_chain :: "'l chain \<Rightarrow> 'l chain \<Rightarrow> 'l chain" where
  "plus_chain out_chain in_chain = Joined out_chain in_chain"

instance ..

end

text \<open>The original branches of a chain, from the ancestor to the descendant.\<close>

fun branches :: "'l chain \<Rightarrow> 'l edge list" where
  "branches (Branch e) = [e]"
| "branches (Joined out_chain in_chain) = branches in_chain @ branches out_chain"

text \<open>The length that the scaler and the simplifier compute for a chain: each original
  branch is multiplied by the rate of its own type (\<^verbatim>\<open>update_edge_lengths\<close>), and the
  products are added in the order of the bypasses (\<^verbatim>\<open>len+lengths[e]\<close>). Only the
  multiplication and the addition of the length type are used, and no law of them.\<close>

fun scaled_length :: "('l::{plus,times}) \<Rightarrow> 'l \<Rightarrow> 'l chain \<Rightarrow> 'l" where
  "scaled_length mu_germ mu_soma (Branch e) =
     (if GERM_EDGE \<in> edge_type e then edge_length e * mu_germ else edge_length e * mu_soma)"
| "scaled_length mu_germ mu_soma (Joined out_chain in_chain) =
     scaled_length mu_germ mu_soma out_chain + scaled_length mu_germ mu_soma in_chain"

text \<open>The built graph in which every edge carries itself in place of its length.\<close>

definition originals :: "'l graph \<Rightarrow> 'l chain graph" where
  "originals g =
     \<lparr>vprops = vprops g,
      edges = map (\<lambda>e. Edge (source e) (target e) (Branch e) (edge_type e)) (edges g)\<rparr>"

text \<open>The graph handed to the finalizer, with the chains for lengths: the simplifier and
  the pruner run on the originals of the built graph.\<close>

definition chain_graph ::
  "('l::one) newick_parser \<Rightarrow> 'l Pedigree \<Rightarrow> string list \<Rightarrow> InheritanceModel \<Rightarrow> bool
     \<Rightarrow> error + 'l chain graph" where
  "chain_graph parse_newick pedigree known_samples model normalize_somatic_trees =
     (case construct_pedigree_graph parse_newick pedigree known_samples
             normalize_somatic_trees of
        Inl e \<Rightarrow> Inl e
      | Inr g0 \<Rightarrow>
     (case simplify (originals g0) of
        Inl e \<Rightarrow> Inl e
      | Inr g1 \<Rightarrow> prune g1 model))"

text \<open>A list of edges in which each edge starts where the one before it ends.\<close>

fun chained :: "'l edge list \<Rightarrow> bool" where
  "chained (e # f # es) = (target e = source f \<and> chained (f # es))"
| "chained es = True"

text \<open>The edge \<open>e\<close> replaces a chain of the graph \<open>g0\<close>: its branches are edges of \<open>g0\<close>,
  they form a path from the source of \<open>e\<close> to its target, and the type of \<open>e\<close> is the
  union of their types.\<close>

definition replaces_chain :: "'l graph \<Rightarrow> 'l chain edge \<Rightarrow> bool" where
  "replaces_chain g0 e \<longleftrightarrow>
     branches (edge_length e) \<noteq> []
     \<and> set (branches (edge_length e)) \<subseteq> set (edges g0)
     \<and> chained (branches (edge_length e))
     \<and> source (hd (branches (edge_length e))) = source e
     \<and> target (last (branches (edge_length e))) = target e
     \<and> edge_type e = \<Union> (edge_type ` set (branches (edge_length e)))"

text \<open>The vertices inside a chain, where one branch ends and the next begins; and the
  statement that they have no edge left in the graph \<open>g\<close>.\<close>

definition inner_vertices :: "'l chain \<Rightarrow> nat list" where
  "inner_vertices c = map target (butlast (branches c))"

definition contracted :: "'l chain graph \<Rightarrow> 'l chain edge \<Rightarrow> bool" where
  "contracted g e \<longleftrightarrow> (\<forall>w \<in> set (inner_vertices (edge_length e)). degree w g = 0)"

text \<open>The index that the finalizer gives the vertex \<open>v\<close> of its input, and the edge that it
  creates for the edge \<open>e\<close> of its input, with the scaled length of the chain.\<close>

definition new_index :: "'l graph \<Rightarrow> nat list \<Rightarrow> nat \<Rightarrow> nat" where
  "new_index g topo_order v =
     the (map_in_to_out (num_vertices g) (vertex_order g topo_order) ! v)"

definition final_edge ::
  "('l::{plus,times}) \<Rightarrow> 'l \<Rightarrow> 'l chain graph \<Rightarrow> nat list \<Rightarrow> 'l chain edge \<Rightarrow> 'l edge" where
  "final_edge mu_germ mu_soma g topo_order e =
     Edge (new_index g topo_order (source e)) (new_index g topo_order (target e))
       (scaled_length mu_germ mu_soma (edge_length e)) (edge_type e)"

text \<open>The length that the specification gives an edge: the rate selected by the composed
  type, times the sum of the original branch lengths.\<close>

definition claimed_length :: "real \<Rightarrow> real \<Rightarrow> EdgeType \<Rightarrow> real chain \<Rightarrow> real" where
  "claimed_length mu_germ mu_soma ty c =
     (if GERM_EDGE \<in> ty then mu_germ else mu_soma) * sum_list (map edge_length (branches c))"





text \<open>Every edge of the graph joins two of its vertices. A Boost adjacency list with
  vector storage cannot hold any other edge (\<^verbatim>\<open>add_edge\<close> enlarges the vertex set to
  hold both end points); the list of edges of the model can.\<close>

definition wf_graph :: "'l graph \<Rightarrow> bool" where
  "wf_graph g \<longleftrightarrow>
     (\<forall>e \<in> set (edges g). source e < num_vertices g \<and> target e < num_vertices g)"



text \<open>Two nodes of the junction tree are adjacent when an edge joins them, in either
  direction (the tree is undirected). They are connected within \<open>P\<close> when a path of
  adjacent nodes, all satisfying \<open>P\<close>, leads from one to the other.\<close>

definition jt_adjacent :: "junction_tree \<Rightarrow> nat \<Rightarrow> nat \<Rightarrow> bool" where
  "jt_adjacent t i j \<longleftrightarrow> (i, j) \<in> set (tree_edges t) \<or> (j, i) \<in> set (tree_edges t)"

definition jt_connected_within :: "junction_tree \<Rightarrow> (nat \<Rightarrow> bool) \<Rightarrow> nat \<Rightarrow> nat \<Rightarrow> bool" where
  "jt_connected_within t P = rtranclp (\<lambda>i j. jt_adjacent t i j \<and> P i \<and> P j)"




section \<open>Example graphs\<close>

text \<open>A trio: father 0, mother 1, child 2, both parent edges germline of length 1.\<close>

definition trio :: "real graph" where
  "trio = \<lparr>vprops =
      [\<lparr>vertex_label = ''dad'', vertex_sex = Male, vertex_ploidy = 2, vertex_type = Germline\<rparr>,
       \<lparr>vertex_label = ''mom'', vertex_sex = Female, vertex_ploidy = 2, vertex_type = Germline\<rparr>,
       \<lparr>vertex_label = ''kid'', vertex_sex = Female, vertex_ploidy = 2, vertex_type = Germline\<rparr>],
     edges = [Edge 0 2 1 {GERM_EDGE}, Edge 1 2 1 {GERM_EDGE}]\<rparr>"

text \<open>A stand-in for the Newick parser on the strings of the examples below. A node is
  \<open>(label, parent, length)\<close>, the parent being a position in the node list or the
  anchor; each node becomes a Somatic vertex with the sex and ploidy of the anchor, and its
  branch a \<open>SOMA_EDGE\<close>. The normalisation flag is not looked at.\<close>

type_synonym newick_node = "string \<times> nat option \<times> real"

definition append_node :: "nat \<Rightarrow> nat \<Rightarrow> newick_node \<Rightarrow> real graph \<Rightarrow> real graph" where
  "append_node anchor offset node g =
     (case node of (lbl, par, len) \<Rightarrow>
        add_edge (case par of None \<Rightarrow> anchor | Some p \<Rightarrow> offset + p) (num_vertices g) len
          {SOMA_EDGE}
          (add_vertex \<lparr>vertex_label = lbl, vertex_sex = sexes g anchor,
                       vertex_ploidy = ploidies g anchor, vertex_type = Somatic\<rparr> g))"

definition append_nodes :: "newick_node list \<Rightarrow> real graph \<Rightarrow> nat \<Rightarrow> real graph" where
  "append_nodes nodes g anchor = fold (append_node anchor (num_vertices g)) nodes g"

definition example_newick :: "real newick_parser" where
  "example_newick txt g anchor normalize_somatic_trees =
     (if txt = ''(leaf1:1,leaf2:1)trunk:1;''
        then Some (append_nodes [(''trunk'', None, 1), (''leaf1'', Some 0, 1),
                                  (''leaf2'', Some 0, 1)] g anchor)
      else if txt = ''a:1;'' then Some (append_nodes [(''a'', None, 1)] g anchor)
      else if txt = ''b:1;'' then Some (append_nodes [(''b'', None, 1)] g anchor)
      else None)"

text \<open>One member with a somatic tree of a trunk and two leaves.\<close>

definition single_tree :: "real Pedigree" where
  "single_tree =
     [\<lparr>name = ''A'', sex = Female, dad = None, mom = None,
       dad_length = None, mom_length = None, tags = [''founder''],
       samples = [''(leaf1:1,leaf2:1)trunk:1;'']\<rparr>]"

text \<open>A trio in which the father and the child have one sequenced library each.\<close>

definition sampled_trio :: "real Pedigree" where
  "sampled_trio =
     [\<lparr>name = ''dad'', sex = Male, dad = None, mom = None,
       dad_length = None, mom_length = None, tags = [''founder''], samples = [''a:1;'']\<rparr>,
      \<lparr>name = ''mom'', sex = Female, dad = None, mom = None,
       dad_length = None, mom_length = None, tags = [''founder''], samples = []\<rparr>,
      \<lparr>name = ''kid'', sex = Female, dad = Some ''dad'', mom = Some ''mom'',
       dad_length = None, mom_length = None, tags = [], samples = [''b:1;'']\<rparr>]"

text \<open>A finalized graph of a founder 0 and its sample 1.\<close>

definition founder_and_sample :: "real graph" where
  "founder_and_sample = \<lparr>vprops =
      [\<lparr>vertex_label = ''A/z'', vertex_sex = Female, vertex_ploidy = 2, vertex_type = Germline\<rparr>,
       \<lparr>vertex_label = ''a'', vertex_sex = Female, vertex_ploidy = 2, vertex_type = Sample\<rparr>],
     edges = [Edge 0 1 1 {SOMA_EDGE}]\<rparr>"

text \<open>The relationship graph that \<^verbatim>\<open>Construct\<close> leaves for the sampled trio under the
  autosomal model with \<open>\<mu>\<^sub>g\<^sub>e\<^sub>r\<^sub>m = 2\<close> and \<open>\<mu>\<^sub>s\<^sub>o\<^sub>m\<^sub>a = 1\<close>.\<close>

definition sampled_trio_graph :: "real graph" where
  "sampled_trio_graph = \<lparr>vprops =
      [\<lparr>vertex_label = ''mom/z'', vertex_sex = Female, vertex_ploidy = 2, vertex_type = Germline\<rparr>,
       \<lparr>vertex_label = ''dad/z'', vertex_sex = Male, vertex_ploidy = 2, vertex_type = Germline\<rparr>,
       \<lparr>vertex_label = ''b'', vertex_sex = Female, vertex_ploidy = 2, vertex_type = Sample\<rparr>,
       \<lparr>vertex_label = ''a'', vertex_sex = Male, vertex_ploidy = 2, vertex_type = Sample\<rparr>],
     edges = [Edge 1 3 1 {SOMA_EDGE}, Edge 1 2 3 {SOMA_EDGE, GERM_EDGE},
              Edge 0 2 3 {SOMA_EDGE, GERM_EDGE}]\<rparr>"

text \<open>The relationship graph of the pedigree \<open>single_tree\<close> when the trunk and both leaves
  are known samples.\<close>

definition single_tree_graph :: "real graph" where
  "single_tree_graph = \<lparr>vprops =
      [\<lparr>vertex_label = ''A/z'', vertex_sex = Female, vertex_ploidy = 2, vertex_type = Germline\<rparr>,
       \<lparr>vertex_label = ''trunk'', vertex_sex = Female, vertex_ploidy = 2, vertex_type = Sample\<rparr>,
       \<lparr>vertex_label = ''leaf2'', vertex_sex = Female, vertex_ploidy = 2, vertex_type = Sample\<rparr>,
       \<lparr>vertex_label = ''leaf1'', vertex_sex = Female, vertex_ploidy = 2, vertex_type = Sample\<rparr>],
     edges = [Edge 0 1 1 {SOMA_EDGE}, Edge 1 3 1 {SOMA_EDGE}, Edge 1 2 1 {SOMA_EDGE}]\<rparr>"

text \<open>A pedigree with a loop: \<open>m3\<close> is the son of \<open>m2\<close> and of \<open>m2\<close>'s mother \<open>m1\<close>,
  \<open>m5\<close> is a daughter of \<open>m0\<close>, and \<open>m6\<close> is the child of \<open>m3\<close> and \<open>m5\<close>. The
  founder \<open>m0\<close> and \<open>m6\<close> are sequenced.\<close>

definition diploid_member :: "string \<Rightarrow> Sex \<Rightarrow> string option \<Rightarrow> string option \<Rightarrow> string list \<Rightarrow> real Member" where
  "diploid_member n s d m sm =
     \<lparr>name = n, sex = s, dad = d, mom = m, dad_length = None, mom_length = None,
      tags = [], samples = sm\<rparr>"

definition backcross :: "real Pedigree" where
  "backcross =
     [diploid_member ''m0'' Male None None [''a:1;''],
      diploid_member ''m1'' Female None None [],
      diploid_member ''m2'' Male (Some ''m0'') (Some ''m1'') [],
      diploid_member ''m3'' Male (Some ''m2'') (Some ''m1'') [],
      diploid_member ''m4'' Female None None [],
      diploid_member ''m5'' Female (Some ''m0'') (Some ''m4'') [],
      diploid_member ''m6'' Female (Some ''m3'') (Some ''m5'') [''b:1;'']]"

text \<open>The finalized graph of the pedigree \<open>backcross\<close>.\<close>

definition backcross_graph :: "real graph" where
  "backcross_graph = \<lparr>vprops =
      [\<lparr>vertex_label = ''m4/z'', vertex_sex = Female, vertex_ploidy = 2, vertex_type = Germline\<rparr>,
       \<lparr>vertex_label = ''m1/z'', vertex_sex = Female, vertex_ploidy = 2, vertex_type = Germline\<rparr>,
       \<lparr>vertex_label = ''m0/z'', vertex_sex = Male, vertex_ploidy = 2, vertex_type = Germline\<rparr>,
       \<lparr>vertex_label = ''m5/z'', vertex_sex = Female, vertex_ploidy = 2, vertex_type = Germline\<rparr>,
       \<lparr>vertex_label = ''m2/z'', vertex_sex = Male, vertex_ploidy = 2, vertex_type = Germline\<rparr>,
       \<lparr>vertex_label = ''m3/z'', vertex_sex = Male, vertex_ploidy = 2, vertex_type = Germline\<rparr>,
       \<lparr>vertex_label = ''a'', vertex_sex = Male, vertex_ploidy = 2, vertex_type = Sample\<rparr>,
       \<lparr>vertex_label = ''b'', vertex_sex = Female, vertex_ploidy = 2, vertex_type = Sample\<rparr>],
     edges =
       [Edge 2 4 1 {GERM_EDGE}, Edge 1 4 1 {GERM_EDGE}, Edge 4 5 1 {GERM_EDGE},
        Edge 1 5 1 {GERM_EDGE}, Edge 2 3 1 {GERM_EDGE}, Edge 0 3 1 {GERM_EDGE},
        Edge 2 6 1 {SOMA_EDGE}, Edge 5 7 2 {SOMA_EDGE, GERM_EDGE},
        Edge 3 7 2 {SOMA_EDGE, GERM_EDGE}]\<rparr>"

text \<open>A pedigree of one haploid member whose father's name belongs to no member.\<close>

definition orphan_gamete :: "real Pedigree" where
  "orphan_gamete =
     [\<lparr>name = ''kid'', sex = Male, dad = Some ''nobody'', mom = None,
       dad_length = None, mom_length = None, tags = [''haploid''], samples = []\<rparr>]"

text \<open>The graph that the builder makes of the sampled trio, and the graph that the
  simplifier and the pruner hand to the finalizer, with the chains for lengths.\<close>

definition sampled_trio_built :: "real graph" where
  "sampled_trio_built = \<lparr>vprops =
      [\<lparr>vertex_label = ''dad'', vertex_sex = Male, vertex_ploidy = 2, vertex_type = Germline\<rparr>,
       \<lparr>vertex_label = ''mom'', vertex_sex = Female, vertex_ploidy = 2, vertex_type = Germline\<rparr>,
       \<lparr>vertex_label = ''kid'', vertex_sex = Female, vertex_ploidy = 2, vertex_type = Germline\<rparr>,
       \<lparr>vertex_label = ''a'', vertex_sex = Male, vertex_ploidy = 2, vertex_type = Sample\<rparr>,
       \<lparr>vertex_label = ''b'', vertex_sex = Female, vertex_ploidy = 2, vertex_type = Sample\<rparr>],
     edges = [Edge 0 2 1 {GERM_EDGE}, Edge 1 2 1 {GERM_EDGE},
              Edge 0 3 1 {SOMA_EDGE}, Edge 2 4 1 {SOMA_EDGE}]\<rparr>"

definition sampled_trio_chains :: "real chain graph" where
  "sampled_trio_chains = \<lparr>vprops = vprops sampled_trio_built,
     edges = [Edge 0 3 (Branch (Edge 0 3 1 {SOMA_EDGE})) {SOMA_EDGE},
              Edge 0 4 (Joined (Branch (Edge 2 4 1 {SOMA_EDGE})) (Branch (Edge 0 2 1 {GERM_EDGE})))
                {SOMA_EDGE, GERM_EDGE},
              Edge 1 4 (Joined (Branch (Edge 2 4 1 {SOMA_EDGE})) (Branch (Edge 1 2 1 {GERM_EDGE})))
                {SOMA_EDGE, GERM_EDGE}]\<rparr>"


section \<open>Properties of the pruner\<close>

lemma vprops_remove_edge_if [simp]: "vprops (remove_edge_if P g) = vprops g"
  by (simp add: remove_edge_if_def)

lemma edges_remove_edge_if [simp]:
  "edges (remove_edge_if P g) = filter (\<lambda>e. \<not> P e) (edges g)"
  by (simp add: remove_edge_if_def)

lemma edges_put_ploidy [simp]: "edges (put_ploidy v p g) = edges g"
  by (simp add: put_ploidy_def)

lemma length_vprops_put_ploidy [simp]: "length (vprops (put_ploidy v p g)) = length (vprops g)"
  by (simp add: put_ploidy_def)

lemma fold_put_ploidy_edges [simp]:
  "edges (fold (\<lambda>v. put_ploidy v p) vs g) = edges g"
  by (induction vs arbitrary: g) simp_all

lemma fold_put_ploidy_length [simp]:
  "length (vprops (fold (\<lambda>v. put_ploidy v p) vs g)) = length (vprops g)"
  by (induction vs arbitrary: g) simp_all

lemma fold_put_ploidy_nth:
  "v < length (vprops g) \<Longrightarrow>
   vprops (fold (\<lambda>v. put_ploidy v p) vs g) ! v =
     (if v \<in> set vs then (vprops g ! v)\<lparr>vertex_ploidy := p\<rparr> else vprops g ! v)"
proof (induction vs arbitrary: g)
  case Nil
  then show ?case by simp
next
  case (Cons a vs)
  have len: "v < length (vprops (put_ploidy a p g))"
    using Cons.prems by simp
  show ?case
    using Cons.IH [OF len] Cons.prems
    by (cases "a = v") (auto simp: put_ploidy_def nth_list_update)
qed

lemma edges_all_ploidy_one [simp]: "edges (all_ploidy_one g) = edges g"
  by (simp add: all_ploidy_one_def)

lemma ploidies_all_ploidy_one:
  "v < num_vertices g \<Longrightarrow> ploidies (all_ploidy_one g) v = 1"
  by (simp add: all_ploidy_one_def ploidies_def num_vertices_def fold_put_ploidy_nth)

text \<open>What \<^verbatim>\<open>prune_paternal\<close> computes: the germline edges whose source is Male are
  removed, every other edge is kept, and every ploidy becomes 1. It is the same
  function as \<^verbatim>\<open>prune_maternal\<close>.\<close>

lemma prune_paternal_edges:
  "edges (prune_paternal g) =
     filter (\<lambda>e. \<not> (GERM_EDGE \<in> edge_type e \<and> sexes g (source e) = Male)) (edges g)"
  by (simp add: prune_paternal_def is_m_def cong: filter_cong)

lemma prune_paternal_ploidy:
  "v < num_vertices g \<Longrightarrow> ploidies (prune_paternal g) v = 1"
  by (simp add: prune_paternal_def ploidies_all_ploidy_one num_vertices_def)

lemma is_m_is_p: "is_m g = is_p g"
  by (rule ext) (simp add: is_m_def is_p_def)

lemma prune_paternal_is_maternal: "prune_paternal g = prune_maternal g"
  by (simp add: prune_paternal_def prune_maternal_def is_m_is_p)

text \<open>
  C1. Under the Paternal model the claim asks for the deletion of the germline edges
  whose source is Female, so that the father's edge survives. On the trio the source
  does the opposite: the father's edge \<open>0 \<rightarrow> 2\<close> is deleted and the mother's edge
  \<open>1 \<rightarrow> 2\<close> is the one kept. (All ploidies are set to 1, as claimed.)
\<close>

theorem prune_paternal_trio:
  "edges (prune_paternal trio) = [Edge 1 2 1 {GERM_EDGE}]
   \<and> map vertex_ploidy (vprops (prune_paternal trio)) = [1, 1, 1]"
  by (simp add: prune_paternal_def all_ploidy_one_def num_vertices_def trio_def is_m_def
      sexes_def put_ploidy_def upt_rec)

section \<open>Properties of the priority queue\<close>

lemma heap_top_None [simp]: "heap_top q = None \<longleftrightarrow> q = []"
  by (cases q) (auto split: option.splits)

lemma heap_top_mem: "heap_top q = Some m \<Longrightarrow> m \<in> set q"
  by (induction q arbitrary: m) (auto split: option.splits if_splits)

lemma record_cmp_t_trans:
  "record_cmp_t a b \<Longrightarrow> record_cmp_t b c \<Longrightarrow> record_cmp_t a c"
  by (auto simp: record_cmp_t_def split: if_splits)

lemma record_cmp_t_total: "a \<noteq> b \<Longrightarrow> record_cmp_t a b \<or> record_cmp_t b a"
  by (auto simp: record_cmp_t_def prod_eq_iff)

lemma heap_top_greatest:
  "heap_top q = Some m \<Longrightarrow> x \<in> set q \<Longrightarrow> x = m \<or> record_cmp_t x m"
proof (induction q arbitrary: m)
  case Nil
  then show ?case by simp
next
  case (Cons a q)
  show ?case
  proof (cases "heap_top q")
    case None
    then show ?thesis using Cons.prems by simp
  next
    case (Some m')
    show ?thesis
    proof (cases "record_cmp_t a m'")
      case True
      then have "m = m'" using Cons.prems(1) Some by simp
      then show ?thesis using Cons.IH [OF Some] Cons.prems(2) True by auto
    next
      case False
      then have m: "m = a" using Cons.prems(1) Some by simp
      have "m' = a \<or> record_cmp_t m' a"
        using False record_cmp_t_total [of a m'] by auto
      then show ?thesis
        using Cons.IH [OF Some] Cons.prems(2) m
        by (auto intro: record_cmp_t_trans)
    qed
  qed
qed

text \<open>
  C2, as the source has it. The record on top of the queue has the least fill-in, and
  among the records of that fill-in it is the one of the \<^emph>\<open>greatest\<close> vertex index:
  the queue is a max-heap on \<open>(\<minus> fill_in, + index)\<close>.
\<close>

theorem heap_top_min_fill_max_index:
  "heap_top q = Some (f, v) \<Longrightarrow> (f', v') \<in> set q \<Longrightarrow>
     f \<le> f' \<and> (f' = f \<longrightarrow> v' \<le> v)"
  using heap_top_greatest [where q = q and m = "(f, v)" and x = "(f', v')"]
  by (auto simp: record_cmp_t_def split: if_splits)

theorem heap_top_min_fill_max_index_witness:
  "heap_top [(1, 0), (0, 1), (0, 2)] = Some (0, 2)
   \<and> (0, 1) \<in> set [(1::int, 0::nat), (0, 1), (0, 2)]
   \<and> (0::int) \<le> 0 \<and> (1::nat) \<le> 2"
proof -
  have t: "heap_top [(1, 0), (0, 1), (0, 2)] = Some (0, 2)"
    by (simp add: record_cmp_t_def)
  have m: "((0::int), (1::nat)) \<in> set [(1, 0), (0, 1), (0, 2)]" by simp
  show ?thesis
    using heap_top_min_fill_max_index [OF t m] t m by simp
qed

text \<open>
  C2 as stated fails: with vertices 0 and 1 both of fill-in 0 in the queue, the vertex
  popped is 1, not the smaller index 0, whatever the order of insertion.
\<close>

theorem heap_top_tie_counterexample:
  "heap_top [(0, 0), (0, 1)] = Some (0, 1) \<and> heap_top [(0, 1), (0, 0)] = Some (0, 1)"
  by (simp add: record_cmp_t_def)

section \<open>Properties of the builder\<close>

lemma LookupMemberPosition_unknown:
  "nm \<notin> name ` set ped \<Longrightarrow> LookupMemberPosition ped nm = NumberOfMembers ped"
  by (induction ped) (auto simp: NumberOfMembers_def)

text \<open>An unresolvable parent of a clone or of a diploid member is reported as an invalid
  pedigree before any property of a vertex is read.\<close>

lemma add_clone_edges_unknown_parent:
  assumes "dad member = Some d \<or> (dad member = None \<and> mom member = Some d)"
    and "LookupMemberPosition ped d \<ge> NumberOfMembers ped"
  shows "add_clone_edges ped member v g = Inl PedigreeInvalid"
  using assms by (auto simp: add_clone_edges_def)

lemma add_diploid_edges_unknown_parent:
  assumes "(\<exists>d. dad member = Some d \<and> LookupMemberPosition ped d \<ge> NumberOfMembers ped)
         \<or> (\<exists>m. mom member = Some m \<and> LookupMemberPosition ped m \<ge> NumberOfMembers ped)"
  shows "add_diploid_edges ped member v g = Inl PedigreeInvalid"
  using assms by (auto simp: add_diploid_edges_def Let_def split: option.splits)

text \<open>
  C4. For a haploid member the source reads the sex of the parent vertex
  (\<^verbatim>\<open>get(boost::vertex_sex, graph, parent)\<close>) before it compares \<^verbatim>\<open>parent\<close> with
  \<^verbatim>\<open>NumberOfMembers()\<close>. With an unresolvable father the read is past the end of the
  vertex vector, and the builder does not reach the statement that throws the invalid
  pedigree error.
\<close>

theorem construct_orphan_gamete:
  "construct_pedigree_graph parse_newick orphan_gamete known_samples normalize_somatic_trees
     = Inl OutOfRangeRead"
  by (simp add: construct_pedigree_graph_def add_edges_to_pedigree_graph_def num_vertices_def
      orphan_gamete_def add_edges_body_def GetMember_def has_tag_def iequals_def tolower_def
      member_vertex_def get_ploidy_def ploidies_def add_gamete_edges_def get_vertex_sex_def
      NumberOfMembers_def)

section \<open>Properties of the potentials\<close>

lemma vertex_potentials_nonempty: "p \<in> set (vertex_potentials g v) \<Longrightarrow> p \<noteq> []"
  by (auto simp: vertex_potentials_def split: if_splits)

text \<open>
  C3, as the source has it. Apart from its empty entries, the list of potentials holds,
  for each vertex in index order, the unary factor of a leaf (out-degree 0) and then one
  more factor: the unary one of a founder (in-degree 0), or the vertex followed by its
  dependencies. A leaf with parents contributes two factors.
\<close>

theorem potentials_nonempty_entries:
  "filter (\<lambda>p. p \<noteq> []) (potentials g) =
     concat (map (\<lambda>v. (if out_degree v g = 0 then [[v]] else [])
                       @ (if in_degree v g = 0 then [[v]] else [v # depends g v]))
              [0..<num_vertices g])"
proof -
  have "filter (\<lambda>p. p \<noteq> []) (concat (map (vertex_potentials g) [0..<num_vertices g]))
      = concat (map (vertex_potentials g) [0..<num_vertices g])"
    by (rule filter_True) (auto dest: vertex_potentials_nonempty)
  moreover have "filter (\<lambda>p. p \<noteq> []) (replicate (num_vertices g) ([]::nat list)) = []"
    by simp
  moreover have "vertex_potentials g =
      (\<lambda>v. (if out_degree v g = 0 then [[v]] else [])
            @ (if in_degree v g = 0 then [[v]] else [v # depends g v]))"
    by (rule ext) (simp add: vertex_potentials_def)
  ultimately show ?thesis
    unfolding potentials_def filter_append by simp
qed

text \<open>
  C3 as stated fails on the graph of a founder and its sample: the list has five entries
  for two vertices, two of them empty, and the leaf 1 has the two factors \<open>[1]\<close> and
  \<open>[1, 0]\<close>.
\<close>

theorem potentials_counterexample:
  "potentials founder_and_sample = [[], [], [0], [1], [1, 0]]"
  by code_simp

section \<open>Properties of Construct\<close>

text \<open>
  C9. Whenever \<^verbatim>\<open>Construct\<close> returns, it returns \<^verbatim>\<open>true\<close>; every failure is an
  exception.
\<close>

theorem Construct_returns_true:
  "Construct parse_newick pedigree known_samples model mu mu_somatic normalize_somatic_trees
     = Inr (b, rg) \<Longrightarrow> b = True"
  by (auto simp: Construct_def split: sum.splits)

theorem Construct_returns_true_witness:
  "Construct example_newick sampled_trio [''a'', ''b''] Autosomal_Model 2 1 False
     = Inr (True, \<lparr>member_inheritance_model = Autosomal_Model,
                    member_graph = sampled_trio_graph\<rparr>)"
proof -
  have "\<exists>b. Construct example_newick sampled_trio [''a'', ''b''] Autosomal_Model 2 1 False
     = Inr (b, \<lparr>member_inheritance_model = Autosomal_Model,
                    member_graph = sampled_trio_graph\<rparr>)"
    by code_simp
  then obtain b where e:
    "Construct example_newick sampled_trio [''a'', ''b''] Autosomal_Model 2 1 False
     = Inr (b, \<lparr>member_inheritance_model = Autosomal_Model,
                    member_graph = sampled_trio_graph\<rparr>)" ..
  from Construct_returns_true [OF e] e show ?thesis by simp
qed

section \<open>Properties of the elimination loop\<close>

text \<open>
  C8. On the pedigree \<open>backcross\<close> the elimination loop does not run to its end. The
  vertices 7, 6 and 0 are eliminated with fill-in 0, then vertex 4 with fill-in 1: for
  each neighbour \<open>a\<close> of 4 the loop inserts every neighbour \<open>b\<close> of 4 into
  \<^verbatim>\<open>neighbors[a]\<close>, \<open>a\<close> itself included, so that vertex 1 becomes its own neighbour.
  When vertex 1 is popped next, \<^verbatim>\<open>neighbors[a].erase(v)\<close> with \<open>a = v = 1\<close> erases
  from the set the range-for is iterating over.
\<close>

theorem backcross_elimination:
  "Construct example_newick backcross [''a'', ''b''] Autosomal_Model 1 1 False
     = Inl IteratorInvalidated
   \<and> (case pruned_graph example_newick backcross [''a'', ''b''] Autosomal_Model 1 1 False of
         Inl e \<Rightarrow> Inl e
       | Inr g2 \<Rightarrow> finalize g2) = Inr backcross_graph
   \<and> elim_loop (initial_state backcross_graph) = Inl IteratorInvalidated"
  by code_simp

section \<open>Properties of the sort and of the finalizer\<close>

lemma dfs_visit_inv:
  "dfs_inv colors st out \<Longrightarrow> dfs_visit adj colors st out = Inr (colors', out') \<Longrightarrow>
   length colors' = length colors \<and> dfs_inv colors' [] out'"
proof (induction adj colors st out rule: dfs_visit.induct)
  case (1 adj colors out)
  then show ?case by (simp add: dfs_inv_def)
next
  case (2 adj colors u st out)
  have "dfs_inv (colors[u := Black]) st (out @ [u])"
    using "2.prems"(1) by (auto simp: dfs_inv_def nth_list_update)
  then show ?case using "2.IH" "2.prems"(2) by simp
next
  case (3 adj colors u w ws st out)
  show ?case
  proof (cases "w < length colors")
    case False
    then show ?thesis using "3.prems"(2) by simp
  next
    case True
    show ?thesis
    proof (cases "colors ! w")
      case White
      have "dfs_inv (colors[w := Gray]) ((w, adj w) # (u, ws) # st) out"
        using "3.prems"(1) True White by (auto simp: dfs_inv_def nth_list_update)
      then show ?thesis using "3.IH"(1) [OF True White] "3.prems"(2) True White by simp
    next
      case Gray
      then show ?thesis using "3.prems"(2) True by simp
    next
      case Black
      have "dfs_inv colors ((u, ws) # st) out"
        using "3.prems"(1) by (auto simp: dfs_inv_def)
      then show ?thesis using "3.IH"(2) [OF True Black] "3.prems"(2) True Black by simp
    qed
  qed
qed

lemma dfs_roots_distinct:
  "\<forall>u \<in> set us. u < length colors \<Longrightarrow> dfs_inv colors [] out \<Longrightarrow>
   dfs_roots adj us colors out = Inr t \<Longrightarrow> distinct t \<and> (\<forall>u \<in> set t. u < length colors)"
proof (induction us arbitrary: colors out)
  case Nil
  then show ?case by (auto simp: dfs_inv_def)
next
  case (Cons u us)
  show ?case
  proof (cases "colors ! u = White")
    case False
    then show ?thesis using Cons.IH [of colors out] Cons.prems by simp
  next
    case True
    then obtain colors' out' where v: "dfs_visit adj (colors[u := Gray]) [(u, adj u)] out = Inr (colors', out')"
      and r: "dfs_roots adj us colors' out' = Inr t"
      using Cons.prems(3) by (auto split: sum.splits)
    have "dfs_inv (colors[u := Gray]) [(u, adj u)] out"
      using Cons.prems(1,2) True by (auto simp: dfs_inv_def nth_list_update)
    from dfs_visit_inv [OF this v] have l: "length colors' = length colors" and i: "dfs_inv colors' [] out'"
      by simp_all
    have "\<forall>u \<in> set us. u < length colors'" using Cons.prems(1) l by simp
    from Cons.IH [OF this i r] l show ?thesis by simp
  qed
qed

lemma topological_sort_distinct:
  "topological_sort g = Inr t \<Longrightarrow> distinct t \<and> (\<forall>u \<in> set t. u < num_vertices g)"
  using dfs_roots_distinct [of "[0..<num_vertices g]" "replicate (num_vertices g) White" "[]"
      "adjacent_vertices g" t]
  by (simp add: topological_sort_def dfs_inv_def)

lemma fold_update_other:
  "v \<notin> set xs \<Longrightarrow>
   fold (\<lambda>(v, w) m. m[v := Some w]) (zip xs js) m ! v = m ! v"
proof (induction xs arbitrary: js m)
  case Nil
  then show ?case by simp
next
  case (Cons x xs)
  show ?case
  proof (cases js)
    case Nil
    then show ?thesis by simp
  next
    case (Cons j js')
    then show ?thesis using Cons.IH [of js' "m[x := Some j]"] Cons.prems by simp
  qed
qed

lemma fold_update_nth:
  "distinct xs \<Longrightarrow> \<forall>v \<in> set xs. v < length m \<Longrightarrow> i < length xs \<Longrightarrow>
   fold (\<lambda>(v, w) m. m[v := Some w]) (zip xs [k..<k + length xs]) m ! (xs ! i) = Some (k + i)"
proof (induction xs arbitrary: k m i)
  case Nil
  then show ?case by simp
next
  case (Cons x xs)
  have upt: "[k..<k + length (x # xs)] = k # [Suc k..<Suc k + length xs]"
    by (simp add: upt_rec)
  show ?case
  proof (cases i)
    case 0
    have "fold (\<lambda>(v, w) m. m[v := Some w]) (zip xs [Suc k..<Suc k + length xs]) (m[x := Some k]) ! x
        = (m[x := Some k]) ! x"
      using Cons.prems(1) by (intro fold_update_other) simp
    then show ?thesis using 0 upt Cons.prems(2) by simp
  next
    case (Suc n)
    have "fold (\<lambda>(v, w) m. m[v := Some w]) (zip xs [Suc k..<Suc k + length xs]) (m[x := Some k]) ! (xs ! n)
        = Some (Suc k + n)"
      using Cons.prems Suc by (intro Cons.IH) simp_all
    then show ?thesis using Suc upt by simp
  qed
qed

lemma map_in_to_out_nth:
  "distinct order \<Longrightarrow> \<forall>v \<in> set order. v < n \<Longrightarrow> i < length order \<Longrightarrow>
   map_in_to_out n order ! (order ! i) = Some i"
  using fold_update_nth [of order "replicate n None" i 0]
  by (simp add: map_in_to_out_def)

lemma copy_edges_Inr:
  "copy_edges m es = Inr es' \<Longrightarrow>
   es' = map (\<lambda>e. Edge (the (m ! source e)) (the (m ! target e)) (edge_length e) (edge_type e)) es
   \<and> (\<forall>e \<in> set es. m ! source e \<noteq> None \<and> m ! target e \<noteq> None)"
proof (induction es arbitrary: es')
  case Nil
  then show ?case by simp
next
  case (Cons e es)
  then show ?case by (auto split: option.splits sum.splits)
qed

lemma vertex_type_suffix_label [simp]: "vertex_type (suffix_label p) = vertex_type p"
  by (simp add: suffix_label_def)

lemma band_disjoint:
  "\<not> (founder_band g v \<and> germline_band g v)" "\<not> (founder_band g v \<and> somatic_band g v)"
  "\<not> (founder_band g v \<and> sample_band g v)" "\<not> (germline_band g v \<and> somatic_band g v)"
  "\<not> (germline_band g v \<and> sample_band g v)" "\<not> (somatic_band g v \<and> sample_band g v)"
  by (auto simp: founder_band_def germline_band_def somatic_band_def sample_band_def)

lemma vertex_order_distinct:
  "distinct t \<Longrightarrow> distinct (vertex_order g t)"
  using band_disjoint [of g] by (auto simp: vertex_order_def Let_def)

lemma vertex_order_set:
  "set (vertex_order g t) =
     {v \<in> set t. founder_band g v \<or> germline_band g v \<or> somatic_band g v \<or> sample_band g v}"
  by (auto simp: vertex_order_def Let_def)

lemma degree_pos_iff:
  "degree v g > 0 \<longleftrightarrow> (\<exists>e \<in> set (edges g). source e = v \<or> target e = v)"
  by (auto simp: degree_def in_degree_def out_degree_def in_edges_def out_edges_def
      filter_empty_conv)

text \<open>What a successful finalize returns.\<close>

lemma finalize_Inr:
  assumes "finalize g = Inr g'"
  obtains t where "topological_sort g = Inr t"
    and "vprops g' = map (\<lambda>v. suffix_label (vprops g ! v)) (vertex_order g t)"
    and "edges g' = map (\<lambda>e. Edge (the (map_in_to_out (num_vertices g) (vertex_order g t) ! source e))
                               (the (map_in_to_out (num_vertices g) (vertex_order g t) ! target e))
                               (edge_length e) (edge_type e)) (edges g)"
    and "\<forall>e \<in> set (edges g). map_in_to_out (num_vertices g) (vertex_order g t) ! source e \<noteq> None
           \<and> map_in_to_out (num_vertices g) (vertex_order g t) ! target e \<noteq> None"
proof -
  obtain t where t: "topological_sort g = Inr t"
    using assms by (auto simp: finalize_def split: sum.splits)
  obtain es where es: "copy_edges (map_in_to_out (num_vertices g) (vertex_order g t)) (edges g) = Inr es"
    and g': "g' = \<lparr>vprops = map (\<lambda>v. suffix_label (vprops g ! v)) (vertex_order g t), edges = es\<rparr>"
    using assms t by (auto simp: finalize_def Let_def split: sum.splits)
  from copy_edges_Inr [OF es] g' t that show ?thesis by simp
qed

lemma finalize_sample_degree:
  assumes fin: "finalize g = Inr g'"
    and w: "w < num_vertices g'" and ty: "types g' w = Sample"
  shows "degree w g' > 0"
proof -
  from fin obtain t where t: "topological_sort g = Inr t"
    and vp: "vprops g' = map (\<lambda>v. suffix_label (vprops g ! v)) (vertex_order g t)"
    and ed: "edges g' = map (\<lambda>e. Edge (the (map_in_to_out (num_vertices g) (vertex_order g t) ! source e))
                               (the (map_in_to_out (num_vertices g) (vertex_order g t) ! target e))
                               (edge_length e) (edge_type e)) (edges g)"
    by (rule finalize_Inr)
  let ?order = "vertex_order g t"
  let ?m = "map_in_to_out (num_vertices g) ?order"
  from topological_sort_distinct [OF t] have dt: "distinct t" and rt: "\<forall>u \<in> set t. u < num_vertices g"
    by simp_all
  have wl: "w < length ?order" using w vp by (simp add: num_vertices_def)
  define v where "v = ?order ! w"
  have vin: "v \<in> set ?order" using wl v_def by simp
  have "types g v = Sample"
    using ty vp wl by (simp add: types_def v_def)
  then have "sample_band g v"
    using vin by (auto simp: vertex_order_set founder_band_def germline_band_def somatic_band_def)
  then have "degree v g > 0" by (simp add: sample_band_def)
  then obtain e where e: "e \<in> set (edges g)" "source e = v \<or> target e = v"
    by (auto simp: degree_pos_iff)
  have d: "distinct ?order" using dt by (rule vertex_order_distinct)
  have r: "\<forall>u \<in> set ?order. u < num_vertices g" using rt by (auto simp: vertex_order_set)
  have mv: "?m ! v = Some w"
    unfolding v_def using d r wl by (rule map_in_to_out_nth)
  let ?e' = "Edge (the (?m ! source e)) (the (?m ! target e)) (edge_length e) (edge_type e)"
  have "?e' \<in> set (edges g')" using e(1) ed by auto
  moreover have "source ?e' = w \<or> target ?e' = w" using e(2) mv by auto
  ultimately show ?thesis unfolding degree_pos_iff by blast
qed

lemma map_update_same: "(\<And>x. f (h x) = f x) \<Longrightarrow> map f (xs[i := h (xs ! i)]) = map f xs"
  by (induction xs arbitrary: i) (auto split: nat.splits)

lemma types_put_ploidy [simp]:
  "map vertex_type (vprops (put_ploidy v p g)) = map vertex_type (vprops g)"
  by (simp add: put_ploidy_def map_update_same [where h = "\<lambda>x. x\<lparr>vertex_ploidy := p\<rparr>"])

lemma types_put_sex [simp]:
  "map vertex_type (vprops (put_sex v s g)) = map vertex_type (vprops g)"
  by (simp add: put_sex_def map_update_same [where h = "\<lambda>x. x\<lparr>vertex_sex := s\<rparr>"])

lemma vprops_add_edge [simp]: "vprops (add_edge u v len ty g) = vprops g"
  by (simp add: add_edge_def)

lemma vprops_clear_vertex [simp]: "vprops (clear_vertex v g) = vprops g"
  by (simp add: clear_vertex_def)

lemma vprops_clear_in_edges [simp]: "vprops (clear_in_edges v g) = vprops g"
  by (simp add: clear_in_edges_def)

lemma founder_free_put_type:
  "t \<noteq> Founder \<Longrightarrow> founder_free g \<Longrightarrow> founder_free (put_type v t g)"
  unfolding founder_free_def put_type_def
  by (auto simp: map_update dest!: set_update_subset_insert [THEN subsetD])

subsection \<open>Builder\<close>

lemma add_clone_edges_types:
  "add_clone_edges ped member v g = Inr g' \<Longrightarrow>
   map vertex_type (vprops g') = map vertex_type (vprops g)"
  by (auto simp: add_clone_edges_def Let_def split: if_splits sum.splits prod.splits)

lemma add_gamete_edges_types:
  "add_gamete_edges ped member v g = Inr g' \<Longrightarrow>
   map vertex_type (vprops g') = map vertex_type (vprops g)"
  by (auto simp: add_gamete_edges_def Let_def split: if_splits sum.splits option.splits)

lemma add_diploid_edges_types:
  "add_diploid_edges ped member v g = Inr g' \<Longrightarrow>
   map vertex_type (vprops g') = map vertex_type (vprops g)"
  by (auto simp: add_diploid_edges_def Let_def split: if_splits sum.splits option.splits)

lemma add_edges_body_types:
  "add_edges_body ped v g = Inr g' \<Longrightarrow>
   map vertex_type (vprops g') = map vertex_type (vprops g)"
  by (auto simp: add_edges_body_def Let_def split: if_splits
      dest: add_clone_edges_types add_gamete_edges_types add_diploid_edges_types)

lemma add_edges_loop_types:
  "add_edges_loop ped vs g = Inr g' \<Longrightarrow>
   map vertex_type (vprops g') = map vertex_type (vprops g)"
proof (induction vs arbitrary: g)
  case Nil
  then show ?case by simp
next
  case (Cons v vs)
  then show ?case by (auto split: sum.splits dest: add_edges_body_types)
qed

lemma parse_samples_founder_free:
  assumes "\<And>txt g anchor nrm g'. parse_newick txt g anchor nrm = Some g' \<Longrightarrow> founder_free g
             \<Longrightarrow> founder_free g'"
  shows "parse_samples parse_newick nrm i ss g = Inr g' \<Longrightarrow> founder_free g \<Longrightarrow> founder_free g'"
proof (induction ss arbitrary: g)
  case Nil
  then show ?case by simp
next
  case (Cons s ss)
  then show ?case by (auto split: option.splits dest: assms)
qed

lemma add_somatic_founder_free:
  assumes "\<And>txt g anchor nrm g'. parse_newick txt g anchor nrm = Some g' \<Longrightarrow> founder_free g
             \<Longrightarrow> founder_free g'"
  shows "add_somatic parse_newick nrm ped is g = Inr g' \<Longrightarrow> founder_free g \<Longrightarrow> founder_free g'"
proof (induction "is" arbitrary: g)
  case Nil
  then show ?case by simp
next
  case (Cons i "is")
  from Cons.prems(1) obtain g1 where
    g1: "parse_samples parse_newick nrm i (samples (GetMember ped i)) g = Inr g1"
    and r: "add_somatic parse_newick nrm ped is g1 = Inr g'"
    by (auto split: sum.splits)
  have "founder_free g1"
    using parse_samples_founder_free [OF assms g1 Cons.prems(2)] .
  then show ?case using Cons.IH [OF r] by simp
qed

lemma mark_sample_founder_free: "founder_free g \<Longrightarrow> founder_free (mark_sample known v g)"
  by (simp add: mark_sample_def founder_free_put_type)

lemma fold_mark_sample_founder_free:
  "founder_free g \<Longrightarrow> founder_free (fold (mark_sample known) vs g)"
  by (induction vs arbitrary: g) (simp_all add: mark_sample_founder_free)

lemma construct_pedigree_graph_founder_free:
  assumes "\<And>txt g anchor nrm g'. parse_newick txt g anchor nrm = Some g' \<Longrightarrow> founder_free g
             \<Longrightarrow> founder_free g'"
    and "construct_pedigree_graph parse_newick ped known nrm = Inr g"
  shows "founder_free g"
proof -
  let ?g0 = "\<lparr>vprops = map member_vertex ped, edges = []\<rparr>"
  obtain g1 g2 where g1: "add_edges_to_pedigree_graph ped ?g0 = Inr g1"
    and g2: "add_somatic parse_newick nrm ped [0..<NumberOfMembers ped] g1 = Inr g2"
    and g: "g = mark_samples known g2"
    using assms(2) by (auto simp: construct_pedigree_graph_def Let_def split: sum.splits)
  have "founder_free ?g0"
    by (auto simp: founder_free_def member_vertex_def)
  then have "founder_free g1"
    using g1 add_edges_loop_types [of ped _ ?g0 g1]
    by (simp add: founder_free_def add_edges_to_pedigree_graph_def)
  then have "founder_free g2"
    using add_somatic_founder_free [OF assms(1) g2] by simp
  then show ?thesis
    using g by (simp add: mark_samples_def fold_mark_sample_founder_free)
qed

subsection \<open>Scaler, simplifier, pruner\<close>

lemma vprops_update_edge_lengths [simp]: "vprops (update_edge_lengths g a b) = vprops g"
  by (simp add: update_edge_lengths_def)

lemma vprops_cull_leaf [simp]: "vprops (cull_leaf v g) = vprops g"
  by (simp add: cull_leaf_def)

lemma vprops_unlink_founders [simp]: "vprops (unlink_founders v g) = vprops g"
  by (simp add: unlink_founders_def)

lemma vprops_fold_add_edge [simp]:
  "vprops (fold (\<lambda>e. add_edge (f e) c (l e) (t e)) es g) = vprops g"
  by (induction es arbitrary: g) simp_all

lemma vprops_bypass [simp]: "vprops (bypass v g) = vprops g"
  by (simp add: bypass_def Let_def)

lemma vprops_fold_cull_leaf [simp]: "vprops (fold cull_leaf vs g) = vprops g"
  by (induction vs arbitrary: g) simp_all

lemma vprops_fold_unlink_founders [simp]: "vprops (fold unlink_founders vs g) = vprops g"
  by (induction vs arbitrary: g) simp_all

lemma vprops_fold_bypass [simp]: "vprops (fold bypass vs g) = vprops g"
  by (induction vs arbitrary: g) simp_all

lemma simplify_vprops: "simplify g = Inr g' \<Longrightarrow> vprops g' = vprops g"
  by (auto simp: simplify_def Let_def split: sum.splits)

lemma ylinked_loop_types:
  "ylinked_loop vs g = Inr g' \<Longrightarrow> map vertex_type (vprops g') = map vertex_type (vprops g)"
proof (induction vs arbitrary: g)
  case Nil
  then show ?case by simp
next
  case (Cons v vs)
  then show ?case by (cases "sexes g v") (auto split: if_splits)
qed

lemma xlinked_loop_types:
  "xlinked_loop vs g = Inr g' \<Longrightarrow> map vertex_type (vprops g') = map vertex_type (vprops g)"
proof (induction vs arbitrary: g)
  case Nil
  then show ?case by simp
next
  case (Cons v vs)
  then show ?case by (cases "sexes g v") (auto split: if_splits)
qed

lemma wlinked_loop_types:
  "wlinked_loop vs g = Inr g' \<Longrightarrow> map vertex_type (vprops g') = map vertex_type (vprops g)"
proof (induction vs arbitrary: g)
  case Nil
  then show ?case by simp
next
  case (Cons v vs)
  then show ?case by (cases "sexes g v") (auto split: if_splits)
qed

lemma zlinked_loop_types:
  "zlinked_loop vs g = Inr g' \<Longrightarrow> map vertex_type (vprops g') = map vertex_type (vprops g)"
proof (induction vs arbitrary: g)
  case Nil
  then show ?case by simp
next
  case (Cons v vs)
  then show ?case by (cases "sexes g v") (auto split: if_splits)
qed

lemma fold_put_ploidy_types [simp]:
  "map vertex_type (vprops (fold (\<lambda>v. put_ploidy v p) vs g)) = map vertex_type (vprops g)"
  by (induction vs arbitrary: g) simp_all

lemma prune_types:
  "prune g model = Inr g' \<Longrightarrow> map vertex_type (vprops g') = map vertex_type (vprops g)"
  by (cases model)
     (auto simp: prune_autosomal_def prune_ylinked_def prune_xlinked_def prune_wlinked_def
        prune_zlinked_def prune_maternal_def prune_paternal_def all_ploidy_one_def
        dest: ylinked_loop_types xlinked_loop_types wlinked_loop_types zlinked_loop_types)

subsection \<open>Finalizer\<close>

lemma finalize_founder_free:
  assumes "finalize g = Inr g'" and "founder_free g"
  shows "founder_free g'"
proof -
  from assms(1) obtain t where t: "topological_sort g = Inr t"
    and vp: "vprops g' = map (\<lambda>v. suffix_label (vprops g ! v)) (vertex_order g t)"
    by (rule finalize_Inr)
  have "\<forall>u \<in> set (vertex_order g t). u < length (vprops g)"
    using topological_sort_distinct [OF t] by (auto simp: vertex_order_set num_vertices_def)
  then show ?thesis
    using assms(2) vp by (auto simp: founder_free_def)
qed

lemma finalize_founder_band:
  assumes "finalize g = Inr g'" and "topological_sort g = Inr t"
    and "i < length (filter (founder_band g) (rev t))"
  shows "types g' i = Germline"
proof -
  from assms(1,2) have vp: "vprops g' = map (\<lambda>v. suffix_label (vprops g ! v)) (vertex_order g t)"
    by (auto elim!: finalize_Inr)
  let ?f = "filter (founder_band g) (rev t)"
  have o: "vertex_order g t ! i = ?f ! i"
    using assms(3) by (simp add: vertex_order_def Let_def nth_append)
  have "?f ! i \<in> set ?f" using assms(3) by (rule nth_mem)
  then have "founder_band g (?f ! i)" by simp
  then have "types g (?f ! i) = Germline" by (simp add: founder_band_def)
  moreover have "i < length (vertex_order g t)"
    using assms(3) by (simp add: vertex_order_def Let_def)
  ultimately show ?thesis using vp o by (simp add: types_def)
qed

lemma Construct_Inr:
  assumes "Construct parse_newick pedigree known_samples model mu mu_somatic nrm = Inr (b, rg)"
  obtains g where
    "pruned_graph parse_newick pedigree known_samples model mu mu_somatic nrm = Inr g"
    and "finalize g = Inr (member_graph rg)"
    and "member_inheritance_model rg = model"
  using assms by (auto simp: Construct_def split: sum.splits)

lemma Construct_sampled_trio:
  "Construct example_newick sampled_trio [''a'', ''b''] Autosomal_Model 2 1 False
     = Inr (True, \<lparr>member_inheritance_model = Autosomal_Model,
                    member_graph = sampled_trio_graph\<rparr>)"
  by code_simp

lemma Construct_single_tree:
  "Construct example_newick single_tree [''leaf1'', ''leaf2'', ''trunk''] Autosomal_Model 2 1 False
     = Inr (True, \<lparr>member_inheritance_model = Autosomal_Model,
                    member_graph = single_tree_graph\<rparr>)"
  by code_simp

lemma pruned_graph_founder_free:
  assumes "\<And>txt g anchor nrm g'. parse_newick txt g anchor nrm = Some g' \<Longrightarrow> founder_free g
             \<Longrightarrow> founder_free g'"
    and "pruned_graph parse_newick pedigree known_samples model mu mu_somatic nrm = Inr g"
  shows "founder_free g"
proof -
  obtain g0 g1 where g0: "construct_pedigree_graph parse_newick pedigree known_samples nrm = Inr g0"
    and g1: "simplify (update_edge_lengths g0 mu mu_somatic) = Inr g1"
    and g: "prune g1 model = Inr g"
    using assms(2) by (auto simp: pruned_graph_def split: sum.splits)
  have "founder_free g0"
    using construct_pedigree_graph_founder_free [OF assms(1) g0] .
  then have "founder_free g1"
    using simplify_vprops [OF g1] by (simp add: founder_free_def)
  then show ?thesis
    using prune_types [OF g] by (simp add: founder_free_def)
qed

lemma founder_free_append_node:
  "founder_free g \<Longrightarrow> founder_free (append_node anchor offset node g)"
  by (cases node) (auto simp: append_node_def founder_free_def add_vertex_def)

lemma founder_free_append_nodes:
  "founder_free g \<Longrightarrow> founder_free (append_nodes nodes g anchor)"
  unfolding append_nodes_def
proof -
  have "founder_free g \<Longrightarrow> founder_free (fold (append_node anchor k) nodes g)" for k
    by (induction nodes arbitrary: g) (simp_all add: founder_free_append_node)
  then show "founder_free g \<Longrightarrow> founder_free (fold (append_node anchor (num_vertices g)) nodes g)" .
qed

lemma example_newick_founder_free:
  "example_newick txt g anchor nrm = Some g' \<Longrightarrow> founder_free g \<Longrightarrow> founder_free g'"
  by (auto simp: example_newick_def founder_free_append_nodes split: if_splits)

text \<open>
  C10. No stage of the pipeline gives a vertex the type \<^verbatim>\<open>Founder\<close>, provided the
  Newick parser gives none: the graph that \<^verbatim>\<open>Construct\<close> stores has no vertex of
  that type, the vertices copied by the first \<^verbatim>\<open>copy_if\<close> of the finalizer (the
  founder band, which comes first) have type Germline, and the \<^verbatim>\<open>founding\<close> section
  of \<^verbatim>\<open>PrintGraph\<close> is the list of the vertices of in-degree 0, whatever their type.
\<close>

theorem no_vertex_typed_Founder:
  assumes "Construct parse_newick pedigree known_samples model mu mu_somatic nrm = Inr (b, rg)"
    and "\<And>txt g anchor nrm g'. parse_newick txt g anchor nrm = Some g' \<Longrightarrow> founder_free g
           \<Longrightarrow> founder_free g'"
  shows "founder_free (member_graph rg)
    \<and> (\<exists>g t. pruned_graph parse_newick pedigree known_samples model mu mu_somatic nrm = Inr g
          \<and> topological_sort g = Inr t
          \<and> (\<forall>i < length (filter (founder_band g) (rev t)). types (member_graph rg) i = Germline))
    \<and> founding (PrintGraph rg)
        = filter (\<lambda>v. in_degree v (member_graph rg) = 0) [0..<num_vertices (member_graph rg)]"
proof -
  from assms(1) obtain g where
    g: "pruned_graph parse_newick pedigree known_samples model mu mu_somatic nrm = Inr g"
    and f: "finalize g = Inr (member_graph rg)"
    by (rule Construct_Inr)
  have "founder_free g" using pruned_graph_founder_free [OF assms(2) g] .
  then have 1: "founder_free (member_graph rg)" using finalize_founder_free [OF f] by simp
  obtain t where t: "topological_sort g = Inr t"
    using f by (auto elim: finalize_Inr)
  have 2: "\<forall>i < length (filter (founder_band g) (rev t)). types (member_graph rg) i = Germline"
    using finalize_founder_band [OF f t] by simp
  have 3: "founding (PrintGraph rg)
        = filter (\<lambda>v. in_degree v (member_graph rg) = 0) [0..<num_vertices (member_graph rg)]"
    by (simp add: PrintGraph_def Let_def)
  from 1 2 3 g t show ?thesis by blast
qed

theorem no_vertex_typed_Founder_witness:
  "Construct example_newick sampled_trio [''a'', ''b''] Autosomal_Model 2 1 False
     = Inr (True, \<lparr>member_inheritance_model = Autosomal_Model,
                    member_graph = sampled_trio_graph\<rparr>)
   \<and> founder_free sampled_trio_graph
   \<and> map (types sampled_trio_graph) [0, 1] = [Germline, Germline]
   \<and> founding (PrintGraph \<lparr>member_inheritance_model = Autosomal_Model,
                    member_graph = sampled_trio_graph\<rparr>) = [0, 1]"
proof -
  have "founding (PrintGraph \<lparr>member_inheritance_model = Autosomal_Model,
                    member_graph = sampled_trio_graph\<rparr>) = [0, 1]"
    by code_simp
  moreover have "map (types sampled_trio_graph) [0, 1] = [Germline, Germline]"
    by code_simp
  ultimately show ?thesis
    using no_vertex_typed_Founder [OF Construct_sampled_trio example_newick_founder_free]
      Construct_sampled_trio
    by simp
qed

text \<open>
  C6, as the source has it. Every vertex of type Sample of the finalized graph has at
  least one edge: the finalizer drops the isolated ones. Neither the in-degree nor the
  out-degree is fixed.
\<close>

theorem sample_vertex_has_an_edge:
  assumes "Construct parse_newick pedigree known_samples model mu mu_somatic nrm = Inr (b, rg)"
    and "w < num_vertices (member_graph rg)"
    and "types (member_graph rg) w = Sample"
  shows "degree w (member_graph rg) > 0"
proof -
  from assms(1) obtain g where "finalize g = Inr (member_graph rg)"
    by (rule Construct_Inr)
  then show ?thesis using assms(2,3) by (rule finalize_sample_degree)
qed

theorem sample_vertex_has_an_edge_witness:
  "Construct example_newick sampled_trio [''a'', ''b''] Autosomal_Model 2 1 False
     = Inr (True, \<lparr>member_inheritance_model = Autosomal_Model,
                    member_graph = sampled_trio_graph\<rparr>)
   \<and> 2 < num_vertices sampled_trio_graph
   \<and> types sampled_trio_graph 2 = Sample
   \<and> degree 2 sampled_trio_graph > 0"
proof -
  have w: "2 < num_vertices (member_graph \<lparr>member_inheritance_model = Autosomal_Model,
                    member_graph = sampled_trio_graph\<rparr>)"
    by code_simp
  have ty: "types (member_graph \<lparr>member_inheritance_model = Autosomal_Model,
                    member_graph = sampled_trio_graph\<rparr>) 2 = Sample"
    by code_simp
  show ?thesis
    using sample_vertex_has_an_edge [OF Construct_sampled_trio w ty] Construct_sampled_trio w ty
    by simp
qed

text \<open>
  C6 as stated fails. An inner node of a somatic tree whose label is a known sample is a
  Sample vertex with out-edges: the trunk of \<open>single_tree\<close> has out-degree 2. And the
  bypass of a child with two parents and one library gives the library both parents: the
  sample \<open>b\<close> of the sampled trio has in-degree 2.
\<close>

theorem sample_degree_counterexample:
  "Construct example_newick single_tree [''leaf1'', ''leaf2'', ''trunk''] Autosomal_Model 2 1 False
     = Inr (True, \<lparr>member_inheritance_model = Autosomal_Model,
                    member_graph = single_tree_graph\<rparr>)
   \<and> types single_tree_graph 1 = Sample
   \<and> in_degree 1 single_tree_graph = 1
   \<and> out_degree 1 single_tree_graph = 2
   \<and> Construct example_newick sampled_trio [''a'', ''b''] Autosomal_Model 2 1 False
     = Inr (True, \<lparr>member_inheritance_model = Autosomal_Model,
                    member_graph = sampled_trio_graph\<rparr>)
   \<and> types sampled_trio_graph 2 = Sample
   \<and> in_degree 2 sampled_trio_graph = 2
   \<and> out_degree 2 sampled_trio_graph = 0"
proof -
  have "types single_tree_graph 1 = Sample" "in_degree 1 single_tree_graph = 1"
    "out_degree 1 single_tree_graph = 2" "types sampled_trio_graph 2 = Sample"
    "in_degree 2 sampled_trio_graph = 2" "out_degree 2 sampled_trio_graph = 0"
    by code_simp+
  then show ?thesis using Construct_single_tree Construct_sampled_trio by simp
qed

section \<open>Edge lengths and contracted chains\<close>

text \<open>The simplifier, the pruner and the finalizer commute with a change of the lengths
  that respects the addition.\<close>

lemma map_edge_sel [simp]:
  "source (map_edge h e) = source e" "target (map_edge h e) = target e"
  "edge_type (map_edge h e) = edge_type e" "edge_length (map_edge h e) = h (edge_length e)"
  by (cases e; simp)+

lemma vprops_map_lengths [simp]: "vprops (map_lengths h g) = vprops g"
  by (simp add: map_lengths_def)

lemma edges_map_lengths [simp]: "edges (map_lengths h g) = map (map_edge h) (edges g)"
  by (simp add: map_lengths_def)

lemma graph_eqI: "vprops g = vprops g' \<Longrightarrow> edges g = edges g' \<Longrightarrow> (g :: 'l graph) = g'"
  by simp

lemma in_edges_map_lengths [simp]:
  "in_edges v (map_lengths h g) = map (map_edge h) (in_edges v g)"
  by (simp add: in_edges_def filter_map o_def)

lemma out_edges_map_lengths [simp]:
  "out_edges v (map_lengths h g) = map (map_edge h) (out_edges v g)"
  by (simp add: out_edges_def filter_map o_def)

lemma degrees_map_lengths [simp]:
  "in_degree v (map_lengths h g) = in_degree v g"
  "out_degree v (map_lengths h g) = out_degree v g"
  "degree v (map_lengths h g) = degree v g"
  "num_vertices (map_lengths h g) = num_vertices g"
  by (simp_all add: in_degree_def out_degree_def degree_def num_vertices_def)

lemma props_map_lengths [simp]:
  "types (map_lengths h g) = types g" "ploidies (map_lengths h g) = ploidies g"
  "sexes (map_lengths h g) = sexes g" "labels (map_lengths h g) = labels g"
  by (rule ext; simp add: types_def ploidies_def sexes_def labels_def)+

lemma remove_edge_if_map_lengths:
  "(\<And>e. P (map_edge h e) = Q e) \<Longrightarrow>
   remove_edge_if P (map_lengths h g) = map_lengths h (remove_edge_if Q g)"
  by (rule graph_eqI) (simp_all add: filter_map o_def)

lemma clear_vertex_map_lengths [simp]:
  "clear_vertex v (map_lengths h g) = map_lengths h (clear_vertex v g)"
  unfolding clear_vertex_def by (rule remove_edge_if_map_lengths) simp

lemma clear_in_edges_map_lengths [simp]:
  "clear_in_edges v (map_lengths h g) = map_lengths h (clear_in_edges v g)"
  unfolding clear_in_edges_def by (rule remove_edge_if_map_lengths) simp

lemma add_edge_map_lengths [simp]:
  "add_edge u v (h l) ty (map_lengths h g) = map_lengths h (add_edge u v l ty g)"
  by (rule graph_eqI) (simp_all add: add_edge_def)

lemma put_ploidy_map_lengths [simp]:
  "put_ploidy v p (map_lengths h g) = map_lengths h (put_ploidy v p g)"
  by (rule graph_eqI) (simp_all add: put_ploidy_def)

lemma fold_map_lengths:
  "(\<And>v g. f v (map_lengths h g) = map_lengths h (f' v g)) \<Longrightarrow>
   fold f vs (map_lengths h g) = map_lengths h (fold f' vs g)"
  by (induction vs arbitrary: g) simp_all

lemma topological_sort_map_lengths [simp]:
  "topological_sort (map_lengths h g) = topological_sort g"
proof -
  have "adjacent_vertices (map_lengths h g) = adjacent_vertices g"
    by (rule ext) (simp add: adjacent_vertices_def o_def)
  then show ?thesis by (simp add: topological_sort_def)
qed

lemma cull_leaf_map_lengths [simp]:
  "cull_leaf v (map_lengths h g) = map_lengths h (cull_leaf v g)"
  by (simp add: cull_leaf_def)

lemma unlink_founders_map_lengths [simp]:
  "unlink_founders v (map_lengths h g) = map_lengths h (unlink_founders v g)"
  by (simp add: unlink_founders_def list_all_iff)

lemma fold_add_edge_map_lengths:
  assumes "\<And>x y. h (x + y) = h x + h y"
  shows "fold (\<lambda>e. add_edge (source e) c (h len + edge_length e) (ot \<union> edge_type e))
           (map (map_edge h) es) (map_lengths h g)
       = map_lengths h
           (fold (\<lambda>e. add_edge (source e) c (len + edge_length e) (ot \<union> edge_type e)) es g)"
proof (induction es arbitrary: g)
  case Nil
  then show ?case by simp
next
  case (Cons e es)
  have "add_edge (source e) c (h len + h (edge_length e)) (ot \<union> edge_type e) (map_lengths h g)
      = map_lengths h (add_edge (source e) c (len + edge_length e) (ot \<union> edge_type e) g)"
    using add_edge_map_lengths [of "source e" c h "len + edge_length e"] assms by simp
  then show ?case using Cons.IH by simp
qed

lemma hd_map_edge: "es \<noteq> [] \<Longrightarrow> hd (map (map_edge h) es) = map_edge h (hd es)"
  by (simp add: hd_map)

lemma bypass_map_lengths:
  assumes "\<And>x y. h (x + y) = h x + h y"
  shows "bypass v (map_lengths h g) = map_lengths h (bypass v g)"
proof (cases "in_degree v g = 0 \<or> out_degree v g \<noteq> 1")
  case True
  then show ?thesis by (auto simp: bypass_def)
next
  case False
  then have ne: "out_edges v g \<noteq> []" by (auto simp: out_degree_def)
  show ?thesis
    using False fold_add_edge_map_lengths [OF assms]
    by (simp add: bypass_def Let_def hd_map_edge [OF ne])
qed

lemma simplify_map_lengths:
  assumes "\<And>x y. h (x + y) = h x + h y"
  shows "simplify (map_lengths h g) = map_result h (simplify g)"
proof (cases "topological_sort g")
  case (Inl e)
  then show ?thesis by (simp add: simplify_def map_result_def)
next
  case (Inr t)
  have "fold bypass (rev t) (fold unlink_founders (rev t) (fold cull_leaf t (map_lengths h g)))
      = map_lengths h (fold bypass (rev t) (fold unlink_founders (rev t) (fold cull_leaf t g)))"
    by (simp add: fold_map_lengths [where f = cull_leaf and f' = cull_leaf]
        fold_map_lengths [where f = unlink_founders and f' = unlink_founders]
        fold_map_lengths [where f = bypass and f' = bypass] bypass_map_lengths [OF assms])
  then show ?thesis using Inr by (simp add: simplify_def map_result_def Let_def)
qed

lemma ylinked_loop_map_lengths:
  "ylinked_loop vs (map_lengths h g) = map_result h (ylinked_loop vs g)"
proof (induction vs arbitrary: g)
  case Nil
  then show ?case by (simp add: map_result_def)
next
  case (Cons v vs)
  then show ?case by (cases "sexes g v") (simp_all add: map_result_def)
qed

lemma xlinked_loop_map_lengths:
  "xlinked_loop vs (map_lengths h g) = map_result h (xlinked_loop vs g)"
proof (induction vs arbitrary: g)
  case Nil
  then show ?case by (simp add: map_result_def)
next
  case (Cons v vs)
  then show ?case by (cases "sexes g v") (simp_all add: map_result_def)
qed

lemma wlinked_loop_map_lengths:
  "wlinked_loop vs (map_lengths h g) = map_result h (wlinked_loop vs g)"
proof (induction vs arbitrary: g)
  case Nil
  then show ?case by (simp add: map_result_def)
next
  case (Cons v vs)
  then show ?case by (cases "sexes g v") (simp_all add: map_result_def)
qed

lemma zlinked_loop_map_lengths:
  "zlinked_loop vs (map_lengths h g) = map_result h (zlinked_loop vs g)"
proof (induction vs arbitrary: g)
  case Nil
  then show ?case by (simp add: map_result_def)
next
  case (Cons v vs)
  then show ?case by (cases "sexes g v") (simp_all add: map_result_def)
qed

lemma is_map_lengths:
  "is_x (map_lengths h g) (map_edge h e) = is_x g e"
  "is_y (map_lengths h g) (map_edge h e) = is_y g e"
  "is_z (map_lengths h g) (map_edge h e) = is_z g e"
  "is_w (map_lengths h g) (map_edge h e) = is_w g e"
  "is_p (map_lengths h g) (map_edge h e) = is_p g e"
  "is_m (map_lengths h g) (map_edge h e) = is_m g e"
  by (simp_all add: is_x_def is_y_def is_z_def is_w_def is_p_def is_m_def)

lemma all_ploidy_one_map_lengths:
  "all_ploidy_one (map_lengths h g) = map_lengths h (all_ploidy_one g)"
  by (simp add: all_ploidy_one_def fold_map_lengths [where f' = "\<lambda>v. put_ploidy v 1"])

lemma prune_map_lengths:
  "prune (map_lengths h g) model = map_result h (prune g model)"
proof (cases model)
  case Autosomal_Model
  then show ?thesis by (simp add: prune_autosomal_def map_result_def)
next
  case XLinked
  then show ?thesis
    by (simp add: prune_xlinked_def xlinked_loop_map_lengths [symmetric]
        remove_edge_if_map_lengths [where Q = "is_y g"] is_map_lengths)
next
  case YLinked
  then show ?thesis
    by (simp add: prune_ylinked_def ylinked_loop_map_lengths [symmetric]
        remove_edge_if_map_lengths [where Q = "is_x g"] is_map_lengths)
next
  case WLinked
  then show ?thesis
    by (simp add: prune_wlinked_def wlinked_loop_map_lengths [symmetric]
        remove_edge_if_map_lengths [where Q = "is_z g"] is_map_lengths)
next
  case ZLinked
  then show ?thesis
    by (simp add: prune_zlinked_def zlinked_loop_map_lengths [symmetric]
        remove_edge_if_map_lengths [where Q = "is_w g"] is_map_lengths)
next
  case Maternal
  then show ?thesis
    by (simp add: prune_maternal_def map_result_def all_ploidy_one_map_lengths [symmetric]
        remove_edge_if_map_lengths [where Q = "is_p g"] is_map_lengths)
next
  case Paternal
  then show ?thesis
    by (simp add: prune_paternal_def map_result_def all_ploidy_one_map_lengths [symmetric]
        remove_edge_if_map_lengths [where Q = "is_m g"] is_map_lengths)
next
  case (Unknown_Model n)
  then show ?thesis by (simp add: map_result_def)
qed

lemma copy_edges_map_edge:
  "copy_edges m (map (map_edge h) es) =
     (case copy_edges m es of Inl e \<Rightarrow> Inl e | Inr es' \<Rightarrow> Inr (map (map_edge h) es'))"
  by (induction es) (auto split: option.splits sum.splits)

lemma band_map_lengths [simp]:
  "founder_band (map_lengths h g) = founder_band g"
  "germline_band (map_lengths h g) = germline_band g"
  "somatic_band (map_lengths h g) = somatic_band g"
  "sample_band (map_lengths h g) = sample_band g"
  by (rule ext; simp add: founder_band_def germline_band_def somatic_band_def sample_band_def)+

lemma vertex_order_map_lengths [simp]:
  "vertex_order (map_lengths h g) t = vertex_order g t"
  by (simp add: vertex_order_def)

lemma finalize_map_lengths:
  "finalize (map_lengths h g) = map_result h (finalize g)"
proof (cases "topological_sort g")
  case (Inl e)
  then show ?thesis by (simp add: finalize_def map_result_def)
next
  case (Inr t)
  show ?thesis
  proof (cases "copy_edges (map_in_to_out (num_vertices g) (vertex_order g t)) (edges g)")
    case (Inl e)
    then show ?thesis
      using Inr by (simp add: finalize_def map_result_def Let_def copy_edges_map_edge)
  next
    case (Inr es)
    have "finalize (map_lengths h g)
        = Inr \<lparr>vprops = map (\<lambda>v. suffix_label (vprops g ! v)) (vertex_order g t),
               edges = map (map_edge h) es\<rparr>"
      using Inr \<open>topological_sort g = Inr t\<close>
      by (simp add: finalize_def Let_def copy_edges_map_edge)
    moreover have "map_result h (finalize g)
        = Inr \<lparr>vprops = map (\<lambda>v. suffix_label (vprops g ! v)) (vertex_order g t),
               edges = map (map_edge h) es\<rparr>"
      using Inr \<open>topological_sort g = Inr t\<close>
      by (simp add: finalize_def Let_def map_result_def map_lengths_def)
    ultimately show ?thesis by simp
  qed
qed

text \<open>The scaler is the change of lengths from the original branches to the scaled
  length.\<close>

lemma scaled_length_plus:
  "scaled_length a b (x + y) = scaled_length a b x + scaled_length a b y"
  by (simp add: plus_chain_def)

lemma update_edge_lengths_originals:
  "update_edge_lengths g a b = map_lengths (scaled_length a b) (originals g)"
  by (rule graph_eqI)
     (auto simp: update_edge_lengths_def originals_def map_lengths_def)

lemma originals_replaces_chain:
  "e \<in> set (edges (originals g0)) \<Longrightarrow> replaces_chain g0 e"
  by (auto simp: originals_def replaces_chain_def)

lemma chained_append:
  "chained p \<Longrightarrow> chained q \<Longrightarrow> p \<noteq> [] \<Longrightarrow> q \<noteq> [] \<Longrightarrow> target (last p) = source (hd q)
   \<Longrightarrow> chained (p @ q)"
proof (induction p)
  case Nil
  then show ?case by simp
next
  case (Cons e p)
  note prems = Cons.prems and IH = Cons.IH
  show ?case
  proof (cases p)
    case Nil
    then show ?thesis using prems by (cases q) simp_all
  next
    case (Cons f p')
    then show ?thesis using prems IH by simp
  qed
qed

lemma replaces_chain_joined:
  assumes i: "replaces_chain g0 e_in" and out: "replaces_chain g0 e_out"
    and meet: "target e_in = source e_out"
  shows "replaces_chain g0 (Edge (source e_in) (target e_out)
           (edge_length e_out + edge_length e_in) (edge_type e_out \<union> edge_type e_in))"
proof -
  let ?p = "branches (edge_length e_in)" and ?q = "branches (edge_length e_out)"
  have p: "?p \<noteq> []" "set ?p \<subseteq> set (edges g0)" "chained ?p" "source (hd ?p) = source e_in"
    "target (last ?p) = target e_in" "edge_type e_in = \<Union> (edge_type ` set ?p)"
    using i unfolding replaces_chain_def by blast+
  have q: "?q \<noteq> []" "set ?q \<subseteq> set (edges g0)" "chained ?q" "source (hd ?q) = source e_out"
    "target (last ?q) = target e_out" "edge_type e_out = \<Union> (edge_type ` set ?q)"
    using out unfolding replaces_chain_def by blast+
  have c: "chained (?p @ ?q)"
    using chained_append [OF p(3) q(3) p(1) q(1)] p(5) q(4) meet by simp
  have ty: "edge_type e_out \<union> edge_type e_in = \<Union> (edge_type ` set (?p @ ?q))"
    using p(6) q(6) by auto
  show ?thesis
    unfolding replaces_chain_def
    using p(1,2,4) q(1,2,5) c ty by (simp add: plus_chain_def)
qed

lemma edges_fold_add_edge:
  "edges (fold (\<lambda>e. add_edge (f e) c (l e) (ty e)) es g)
     = edges g @ map (\<lambda>e. Edge (f e) c (l e) (ty e)) es"
  by (induction es arbitrary: g) (simp_all add: add_edge_def)

lemma set_edges_remove_edge_if: "set (edges (remove_edge_if P g)) \<subseteq> set (edges g)"
  by (auto simp: remove_edge_if_def)

lemma set_edges_clear_vertex: "set (edges (clear_vertex v g)) \<subseteq> set (edges g)"
  by (auto simp: clear_vertex_def remove_edge_if_def)

lemma set_edges_cull_leaf: "set (edges (cull_leaf v g)) \<subseteq> set (edges g)"
  using set_edges_clear_vertex [of v g] by (auto simp: cull_leaf_def)

lemma set_edges_unlink_founders: "set (edges (unlink_founders v g)) \<subseteq> set (edges g)"
  by (auto simp: unlink_founders_def clear_in_edges_def remove_edge_if_def)

lemma set_edges_fold:
  assumes "\<And>v g. set (edges (f v g)) \<subseteq> set (edges g)"
  shows "set (edges (fold f vs g)) \<subseteq> set (edges g)"
proof (induction vs arbitrary: g)
  case Nil
  then show ?case by simp
next
  case (Cons v vs)
  have "set (edges (fold f vs (f v g))) \<subseteq> set (edges (f v g))" by (rule Cons.IH)
  also have "\<dots> \<subseteq> set (edges g)" by (rule assms)
  finally show ?case by simp
qed

lemma bypass_replaces_chain:
  assumes inv: "\<forall>e \<in> set (edges g). replaces_chain g0 e"
  shows "\<forall>e \<in> set (edges (bypass v g)). replaces_chain g0 e"
proof (cases "in_degree v g = 0 \<or> out_degree v g \<noteq> 1")
  case True
  then show ?thesis using inv by (auto simp: bypass_def)
next
  case False
  then have ne: "out_edges v g \<noteq> []" by (auto simp: out_degree_def)
  then have "hd (out_edges v g) \<in> set (out_edges v g)" by simp
  then have o: "hd (out_edges v g) \<in> set (edges g)" "source (hd (out_edges v g)) = v"
    by (auto simp: out_edges_def)
  let ?o = "hd (out_edges v g)"
  let ?g = "fold (\<lambda>e. add_edge (source e) (target ?o) (edge_length ?o + edge_length e)
                        (edge_type ?o \<union> edge_type e)) (in_edges v g) g"
  have new: "\<forall>e \<in> set (edges ?g). replaces_chain g0 e"
  proof
    fix e assume "e \<in> set (edges ?g)"
    then consider "e \<in> set (edges g)"
      | e' where "e' \<in> set (in_edges v g)"
          "e = Edge (source e') (target ?o) (edge_length ?o + edge_length e')
                 (edge_type ?o \<union> edge_type e')"
      by (auto simp: edges_fold_add_edge)
    then show "replaces_chain g0 e"
    proof cases
      case 1
      then show ?thesis using inv by blast
    next
      case 2
      from 2(1) have e': "e' \<in> set (edges g)" "target e' = v" by (auto simp: in_edges_def)
      show ?thesis
        unfolding 2(2)
        by (rule replaces_chain_joined) (use inv e' o in auto)
    qed
  qed
  have "\<forall>e \<in> set (edges (clear_vertex v ?g)). replaces_chain g0 e"
    using new set_edges_clear_vertex [of v ?g] by blast
  then show ?thesis
    using inv by (auto simp: bypass_def Let_def)
qed

lemma fold_bypass_replaces_chain:
  "\<forall>e \<in> set (edges g). replaces_chain g0 e
   \<Longrightarrow> \<forall>e \<in> set (edges (fold bypass vs g)). replaces_chain g0 e"
proof (induction vs arbitrary: g)
  case Nil
  then show ?case by simp
next
  case (Cons v vs)
  show ?case
    using Cons.IH [OF bypass_replaces_chain [OF Cons.prems]] by simp
qed

lemma simplify_replaces_chain:
  assumes inv: "\<forall>e \<in> set (edges g). replaces_chain g0 e" and s: "simplify g = Inr g'"
  shows "\<forall>e \<in> set (edges g'). replaces_chain g0 e"
proof -
  from s obtain t where t: "topological_sort g = Inr t"
    and g': "g' = fold bypass (rev t) (fold unlink_founders (rev t) (fold cull_leaf t g))"
    by (auto simp: simplify_def Let_def split: sum.splits)
  have "set (edges (fold unlink_founders (rev t) (fold cull_leaf t g))) \<subseteq> set (edges g)"
    using set_edges_fold [of unlink_founders, OF set_edges_unlink_founders]
      set_edges_fold [of cull_leaf, OF set_edges_cull_leaf] by blast
  then have "\<forall>e \<in> set (edges (fold unlink_founders (rev t) (fold cull_leaf t g))).
      replaces_chain g0 e"
    using inv by blast
  then show ?thesis unfolding g' by (rule fold_bypass_replaces_chain)
qed

lemma set_edges_ylinked_loop:
  "ylinked_loop vs g = Inr g' \<Longrightarrow> set (edges g') \<subseteq> set (edges g)"
proof (induction vs arbitrary: g)
  case Nil
  then show ?case by simp
next
  case (Cons v vs)
  then show ?case
    using set_edges_clear_vertex [of v g]
    by (cases "sexes g v") (fastforce split: if_splits)+
qed

lemma set_edges_xlinked_loop:
  "xlinked_loop vs g = Inr g' \<Longrightarrow> set (edges g') \<subseteq> set (edges g)"
proof (induction vs arbitrary: g)
  case Nil
  then show ?case by simp
next
  case (Cons v vs)
  then show ?case
    by (cases "sexes g v") (fastforce split: if_splits)+
qed

lemma set_edges_wlinked_loop:
  "wlinked_loop vs g = Inr g' \<Longrightarrow> set (edges g') \<subseteq> set (edges g)"
proof (induction vs arbitrary: g)
  case Nil
  then show ?case by simp
next
  case (Cons v vs)
  then show ?case
    using set_edges_clear_vertex [of v g]
    by (cases "sexes g v") (fastforce split: if_splits)+
qed

lemma set_edges_zlinked_loop:
  "zlinked_loop vs g = Inr g' \<Longrightarrow> set (edges g') \<subseteq> set (edges g)"
proof (induction vs arbitrary: g)
  case Nil
  then show ?case by simp
next
  case (Cons v vs)
  then show ?case
    by (cases "sexes g v") (fastforce split: if_splits)+
qed

lemma set_edges_prune:
  "prune g model = Inr g' \<Longrightarrow> set (edges g') \<subseteq> set (edges g)"
proof (cases model)
  case YLinked
  assume "prune g model = Inr g'"
  then show ?thesis
    using YLinked set_edges_ylinked_loop [of "[0..<num_vertices g]" "remove_edge_if (is_x g) g" g']
      set_edges_remove_edge_if [of "is_x g" g]
    by (auto simp: prune_ylinked_def)
next
  case XLinked
  assume "prune g model = Inr g'"
  then show ?thesis
    using XLinked set_edges_xlinked_loop [of "[0..<num_vertices g]" "remove_edge_if (is_y g) g" g']
      set_edges_remove_edge_if [of "is_y g" g]
    by (auto simp: prune_xlinked_def)
next
  case WLinked
  assume "prune g model = Inr g'"
  then show ?thesis
    using WLinked set_edges_wlinked_loop [of "[0..<num_vertices g]" "remove_edge_if (is_z g) g" g']
      set_edges_remove_edge_if [of "is_z g" g]
    by (auto simp: prune_wlinked_def)
next
  case ZLinked
  assume "prune g model = Inr g'"
  then show ?thesis
    using ZLinked set_edges_zlinked_loop [of "[0..<num_vertices g]" "remove_edge_if (is_w g) g" g']
      set_edges_remove_edge_if [of "is_w g" g]
    by (auto simp: prune_zlinked_def)
qed (auto simp: prune_autosomal_def prune_maternal_def prune_paternal_def remove_edge_if_def)

lemma degree_zero_iff:
  "degree w g = 0 \<longleftrightarrow> (\<forall>e \<in> set (edges g). source e \<noteq> w \<and> target e \<noteq> w)"
  using degree_pos_iff [of w g] by auto

lemma degree_zero_mono:
  "set (edges g') \<subseteq> set (edges g) \<Longrightarrow> degree w g = 0 \<Longrightarrow> degree w g' = 0"
  unfolding degree_zero_iff by blast

lemma contracted_mono:
  assumes "set (edges g') \<subseteq> set (edges g)" and "\<forall>e \<in> set (edges g). contracted g e"
  shows "\<forall>e \<in> set (edges g'). contracted g' e"
  using assms degree_zero_mono [OF assms(1)] unfolding contracted_def by blast

lemma originals_contracted: "e \<in> set (edges (originals g0)) \<Longrightarrow> contracted (originals g0) e"
  by (auto simp: originals_def contracted_def inner_vertices_def)

lemma set_map_butlast:
  "xs \<noteq> [] \<Longrightarrow> set (map f xs) = set (map f (butlast xs)) \<union> {f (last xs)}"
  by (induction xs) auto

lemma inner_vertices_joined:
  assumes "branches i \<noteq> []" "branches out \<noteq> []"
  shows "set (inner_vertices (out + i))
       = set (inner_vertices i) \<union> {target (last (branches i))} \<union> set (inner_vertices out)"
proof -
  have "butlast (branches i @ branches out) = branches i @ butlast (branches out)"
    using assms(2) by (simp add: butlast_append)
  then have "set (inner_vertices (out + i))
      = set (map target (branches i)) \<union> set (inner_vertices out)"
    by (simp add: inner_vertices_def plus_chain_def)
  then show ?thesis
    using set_map_butlast [OF assms(1), of target] by (simp add: inner_vertices_def)
qed

lemma bypass_contracted:
  assumes inv: "\<forall>e \<in> set (edges g). replaces_chain g0 e"
    and con: "\<forall>e \<in> set (edges g). contracted g e"
  shows "\<forall>e \<in> set (edges (bypass v g)). contracted (bypass v g) e"
proof (cases "in_degree v g = 0 \<or> out_degree v g \<noteq> 1
    \<or> in_degree (target (hd (out_edges v g))) g + in_degree v g - 1 > 2
    \<or> ploidies g (target (hd (out_edges v g))) \<noteq> ploidies g v")
  case True
  then have "bypass v g = g" by (auto simp: bypass_def Let_def)
  then show ?thesis using con by simp
next
  case False
  then have ne: "out_edges v g \<noteq> []" by (auto simp: out_degree_def)
  then have "hd (out_edges v g) \<in> set (out_edges v g)" by simp
  then have o: "hd (out_edges v g) \<in> set (edges g)" "source (hd (out_edges v g)) = v"
    by (auto simp: out_edges_def)
  let ?o = "hd (out_edges v g)"
  let ?new = "\<lambda>e. Edge (source e) (target ?o) (edge_length ?o + edge_length e)
                        (edge_type ?o \<union> edge_type e)"
  let ?g = "fold (\<lambda>e. add_edge (source e) (target ?o) (edge_length ?o + edge_length e)
                        (edge_type ?o \<union> edge_type e)) (in_edges v g) g"
  have b: "bypass v g = clear_vertex v ?g"
    using False by (simp add: bypass_def Let_def)
  have es: "set (edges ?g) = set (edges g) \<union> ?new ` set (in_edges v g)"
    by (simp add: edges_fold_add_edge)
  have touched: "\<exists>f' \<in> set (edges g). source f' = x \<or> target f' = x"
    if "f \<in> set (edges ?g)" "source f = x \<or> target f = x" for f x
  proof -
    from that(1) consider "f \<in> set (edges g)" | e' where "e' \<in> set (in_edges v g)" "f = ?new e'"
      unfolding es by blast
    then show ?thesis
    proof cases
      case 1
      then show ?thesis using that(2) by blast
    next
      case 2
      then have "e' \<in> set (edges g)" by (simp add: in_edges_def)
      then show ?thesis using that(2) 2(2) o(1) by auto
    qed
  qed
  have iso: "degree w (clear_vertex v ?g) = 0" if "degree w g = 0" for w
    unfolding degree_zero_iff
  proof
    fix f assume "f \<in> set (edges (clear_vertex v ?g))"
    then have f: "f \<in> set (edges ?g)" using set_edges_clear_vertex by blast
    show "source f \<noteq> w \<and> target f \<noteq> w"
      using touched [OF f] that unfolding degree_zero_iff by blast
  qed
  have isov: "degree v (clear_vertex v ?g) = 0"
    unfolding degree_zero_iff by (auto simp: clear_vertex_def remove_edge_if_def)
  show ?thesis
    unfolding b
  proof
    fix f assume "f \<in> set (edges (clear_vertex v ?g))"
    then have "f \<in> set (edges ?g)" using set_edges_clear_vertex by blast
    then consider "f \<in> set (edges g)" | e' where "e' \<in> set (in_edges v g)" "f = ?new e'"
      unfolding es by blast
    then show "contracted (clear_vertex v ?g) f"
    proof cases
      case 1
      then show ?thesis using con iso unfolding contracted_def by blast
    next
      case 2
      then have e': "e' \<in> set (edges g)" "target e' = v" by (auto simp: in_edges_def)
      have pe: "branches (edge_length e') \<noteq> []" "target (last (branches (edge_length e'))) = v"
        using inv e' unfolding replaces_chain_def by blast+
      have po: "branches (edge_length ?o) \<noteq> []"
        using inv o(1) unfolding replaces_chain_def by blast
      have "set (inner_vertices (edge_length f))
          = set (inner_vertices (edge_length e')) \<union> {v} \<union> set (inner_vertices (edge_length ?o))"
        using inner_vertices_joined [OF pe(1) po] pe(2) 2(2) by simp
      moreover have "\<forall>w \<in> set (inner_vertices (edge_length e')). degree w g = 0"
        using con e'(1) unfolding contracted_def by blast
      moreover have "\<forall>w \<in> set (inner_vertices (edge_length ?o)). degree w g = 0"
        using con o(1) unfolding contracted_def by blast
      ultimately show ?thesis
        unfolding contracted_def using iso isov by blast
    qed
  qed
qed

lemma fold_bypass_contracted:
  "\<forall>e \<in> set (edges g). replaces_chain g0 e \<Longrightarrow> \<forall>e \<in> set (edges g). contracted g e
   \<Longrightarrow> \<forall>e \<in> set (edges (fold bypass vs g)). contracted (fold bypass vs g) e"
proof (induction vs arbitrary: g)
  case Nil
  then show ?case by simp
next
  case (Cons v vs)
  show ?case
    using Cons.IH [OF bypass_replaces_chain [OF Cons.prems(1)]
        bypass_contracted [OF Cons.prems]] by simp
qed

lemma simplify_contracted:
  assumes inv: "\<forall>e \<in> set (edges g). replaces_chain g0 e"
    and con: "\<forall>e \<in> set (edges g). contracted g e"
    and s: "simplify g = Inr g'"
  shows "\<forall>e \<in> set (edges g'). contracted g' e"
proof -
  from s obtain t where t: "topological_sort g = Inr t"
    and g': "g' = fold bypass (rev t) (fold unlink_founders (rev t) (fold cull_leaf t g))"
    by (auto simp: simplify_def Let_def split: sum.splits)
  let ?g = "fold unlink_founders (rev t) (fold cull_leaf t g)"
  have sub: "set (edges ?g) \<subseteq> set (edges g)"
    using set_edges_fold [of unlink_founders, OF set_edges_unlink_founders]
      set_edges_fold [of cull_leaf, OF set_edges_cull_leaf] by blast
  have 1: "\<forall>e \<in> set (edges ?g). replaces_chain g0 e" using inv sub by blast
  have 2: "\<forall>e \<in> set (edges ?g). contracted ?g e" by (rule contracted_mono [OF sub con])
  show ?thesis unfolding g' by (rule fold_bypass_contracted [OF 1 2])
qed

text \<open>
  C5, as the source has it. Take the graph that \<^verbatim>\<open>Construct\<close> hands to the finalizer and
  let every edge carry, in place of its length, the chain of edges of the built graph that
  the simplifier has put together for it (\<open>chain_graph\<close>). Then every edge replaces a chain
  of original branches that is a path of the built graph from its source to its target,
  whose types unite to its type, and whose inner vertices have no edge left; and the edges
  of the finalized graph are these edges, renumbered, each with the length
  \<open>scaled_length\<close>: every branch length times the rate of the branch's own type
  (\<open>\<mu>\<^sub>g\<^sub>e\<^sub>r\<^sub>m\<close> for a germline branch, \<open>\<mu>\<^sub>s\<^sub>o\<^sub>m\<^sub>a\<close> for any other), the products added
  in the order of the bypasses. The statement holds for every type of lengths with a one,
  an addition and a multiplication, of which no law is used: in particular for the
  rounding operations of the source.
\<close>

theorem edge_length_is_sum_of_scaled_branches:
  assumes "Construct parse_newick pedigree known_samples model mu_germ mu_soma nrm = Inr (b, rg)"
  shows "\<exists>g0 gc t.
      construct_pedigree_graph parse_newick pedigree known_samples nrm = Inr g0
      \<and> chain_graph parse_newick pedigree known_samples model nrm = Inr gc
      \<and> (\<forall>e \<in> set (edges gc). replaces_chain g0 e \<and> contracted gc e)
      \<and> topological_sort gc = Inr t
      \<and> edges (member_graph rg) = map (final_edge mu_germ mu_soma gc t) (edges gc)"
proof -
  let ?h = "scaled_length mu_germ mu_soma"
  from assms obtain g3 where
    g3: "pruned_graph parse_newick pedigree known_samples model mu_germ mu_soma nrm = Inr g3"
    and f: "finalize g3 = Inr (member_graph rg)"
    by (auto simp: Construct_def split: sum.splits)
  from g3 obtain g0 g1 where
    g0: "construct_pedigree_graph parse_newick pedigree known_samples nrm = Inr g0"
    and g1: "simplify (update_edge_lengths g0 mu_germ mu_soma) = Inr g1"
    and g2: "prune g1 model = Inr g3"
    by (auto simp: pruned_graph_def split: sum.splits)
  from g1 obtain c1 where c1: "simplify (originals g0) = Inr c1" and e1: "g1 = map_lengths ?h c1"
    by (auto simp: update_edge_lengths_originals simplify_map_lengths [OF scaled_length_plus]
        map_result_def split: sum.splits)
  from g2 obtain c2 where c2: "prune c1 model = Inr c2" and e2: "g3 = map_lengths ?h c2"
    by (auto simp: e1 prune_map_lengths map_result_def split: sum.splits)
  have cg: "chain_graph parse_newick pedigree known_samples model nrm = Inr c2"
    using g0 c1 c2 by (simp add: chain_graph_def)
  have o1: "\<forall>e \<in> set (edges (originals g0)). replaces_chain g0 e"
    using originals_replaces_chain by blast
  have o2: "\<forall>e \<in> set (edges (originals g0)). contracted (originals g0) e"
    using originals_contracted by blast
  have r1: "\<forall>e \<in> set (edges c1). replaces_chain g0 e"
    by (rule simplify_replaces_chain [OF o1 c1])
  have k1: "\<forall>e \<in> set (edges c1). contracted c1 e"
    by (rule simplify_contracted [OF o1 o2 c1])
  have r2: "\<forall>e \<in> set (edges c2). replaces_chain g0 e"
    using r1 set_edges_prune [OF c2] by blast
  have k2: "\<forall>e \<in> set (edges c2). contracted c2 e"
    by (rule contracted_mono [OF set_edges_prune [OF c2] k1])
  from f obtain t where t: "topological_sort c2 = Inr t"
    and es: "edges (member_graph rg) = map (final_edge mu_germ mu_soma c2 t) (edges c2)"
    unfolding e2
    by (rule finalize_Inr)
       (simp add: final_edge_def new_index_def comp_def num_vertices_def)
  show ?thesis using g0 cg r2 k2 t es by blast
qed

lemma construct_sampled_trio:
  "construct_pedigree_graph example_newick sampled_trio [''a'', ''b''] False
     = Inr sampled_trio_built"
  by code_simp

lemma chain_graph_sampled_trio:
  "chain_graph example_newick sampled_trio [''a'', ''b''] Autosomal_Model False
     = Inr sampled_trio_chains"
  by code_simp

lemma topological_sort_sampled_trio_chains:
  "topological_sort sampled_trio_chains = Inr [3, 4, 0, 1, 2]"
  by code_simp

theorem edge_length_is_sum_of_scaled_branches_witness:
  "Construct example_newick sampled_trio [''a'', ''b''] Autosomal_Model 2 1 False
     = Inr (True, \<lparr>member_inheritance_model = Autosomal_Model,
                    member_graph = sampled_trio_graph\<rparr>)
   \<and> construct_pedigree_graph example_newick sampled_trio [''a'', ''b''] False
     = Inr sampled_trio_built
   \<and> chain_graph example_newick sampled_trio [''a'', ''b''] Autosomal_Model False
     = Inr sampled_trio_chains
   \<and> list_all (\<lambda>e. replaces_chain sampled_trio_built e \<and> contracted sampled_trio_chains e)
        (edges sampled_trio_chains)
   \<and> topological_sort sampled_trio_chains = Inr [3, 4, 0, 1, 2]
   \<and> edges sampled_trio_graph
     = map (final_edge 2 1 sampled_trio_chains [3, 4, 0, 1, 2]) (edges sampled_trio_chains)"
proof -
  from edge_length_is_sum_of_scaled_branches [OF Construct_sampled_trio]
  obtain g0 gc t where
    "construct_pedigree_graph example_newick sampled_trio [''a'', ''b''] False = Inr g0"
    "chain_graph example_newick sampled_trio [''a'', ''b''] Autosomal_Model False = Inr gc"
    "\<forall>e \<in> set (edges gc). replaces_chain g0 e \<and> contracted gc e"
    "topological_sort gc = Inr t"
    "edges sampled_trio_graph = map (final_edge 2 1 gc t) (edges gc)"
    by auto
  then show ?thesis
    using Construct_sampled_trio
    by (simp add: construct_sampled_trio chain_graph_sampled_trio
        topological_sort_sampled_trio_chains list_all_iff)
qed

text \<open>
  C5 as stated fails on the sampled trio with \<open>\<mu>\<^sub>g\<^sub>e\<^sub>r\<^sub>m = 2\<close> and \<open>\<mu>\<^sub>s\<^sub>o\<^sub>m\<^sub>a = 1\<close>. The edge
  from the father to the library \<open>b\<close> replaces the germline branch father--child and the
  somatic branch child--library, both of length 1. Its type has the germline flag, so the
  claim gives it the length \<open>2 * (1 + 1) = 4\<close>; its length is \<open>1 * 1 + 1 * 2 = 3\<close>. All
  these numbers are small integers, on which the floating-point operations of the source
  are exact. The child is bypassed because the stand-in for the Newick parser gives the
  library the ploidy of its anchor.
\<close>

theorem edge_length_counterexample:
  "Construct example_newick sampled_trio [''a'', ''b''] Autosomal_Model 2 1 False
     = Inr (True, \<lparr>member_inheritance_model = Autosomal_Model,
                    member_graph = sampled_trio_graph\<rparr>)
   \<and> chain_graph example_newick sampled_trio [''a'', ''b''] Autosomal_Model False
     = Inr sampled_trio_chains
   \<and> edges sampled_trio_chains ! 1
     = Edge 0 4 (Joined (Branch (Edge 2 4 1 {SOMA_EDGE})) (Branch (Edge 0 2 1 {GERM_EDGE})))
         {SOMA_EDGE, GERM_EDGE}
   \<and> edges sampled_trio_graph ! 1
     = final_edge 2 1 sampled_trio_chains [3, 4, 0, 1, 2] (edges sampled_trio_chains ! 1)
   \<and> edges sampled_trio_graph ! 1 = Edge 1 2 3 {SOMA_EDGE, GERM_EDGE}
   \<and> claimed_length 2 1 (edge_type (edges sampled_trio_graph ! 1))
        (edge_length (edges sampled_trio_chains ! 1)) = 4
   \<and> edge_length (edges sampled_trio_graph ! 1)
     \<noteq> claimed_length 2 1 (edge_type (edges sampled_trio_graph ! 1))
         (edge_length (edges sampled_trio_chains ! 1))"
proof -
  have c: "edges sampled_trio_chains ! 1
      = Edge 0 4 (Joined (Branch (Edge 2 4 1 {SOMA_EDGE})) (Branch (Edge 0 2 1 {GERM_EDGE})))
          {SOMA_EDGE, GERM_EDGE}"
    by (simp add: sampled_trio_chains_def)
  have d: "edges sampled_trio_graph ! 1 = Edge 1 2 3 {SOMA_EDGE, GERM_EDGE}"
    by (simp add: sampled_trio_graph_def)
  have e: "final_edge 2 1 sampled_trio_chains [3, 4, 0, 1, 2]
        (Edge 0 4 (Joined (Branch (Edge 2 4 1 {SOMA_EDGE})) (Branch (Edge 0 2 1 {GERM_EDGE})))
          {SOMA_EDGE, GERM_EDGE})
      = Edge 1 2 3 {SOMA_EDGE, GERM_EDGE}"
    by code_simp
  show ?thesis
    unfolding c d e
    using Construct_sampled_trio chain_graph_sampled_trio
    by (simp add: claimed_length_def)
qed

section \<open>Properties of the elimination order and of the junction tree\<close>

subsection \<open>One step of the elimination loop\<close>

lemma set_fs_insert [simp]: "set (fs_insert x xs) = insert x (set xs)"
  by (auto simp: fs_insert_def set_insort_key)

lemma set_fold_fs_insert [simp]: "set (fold fs_insert k xs) = set k \<union> set xs"
  by (induction k arbitrary: xs) auto

lemma set_fs_erase [simp]: "set (fs_erase x xs) = set xs - {x}"
  by (auto simp: fs_erase_def)






subsection \<open>The invariant of the elimination loop\<close>






subsection \<open>The initial state\<close>








subsection \<open>The elimination order is perfect\<close>



subsection \<open>Connectivity\<close>

lemma jt_connected_refl [simp]: "jt_connected_within t P i i"
  by (simp add: jt_connected_within_def)






subsection \<open>Attaching a node\<close>



subsection \<open>The junction-tree loop\<close>










subsection \<open>Every edge of the finalized graph joins two of its vertices\<close>


lemma num_vertices_add_edge [simp]: "num_vertices (add_edge u v l ty g) = num_vertices g"
  by (simp add: num_vertices_def)

lemma num_vertices_put_ploidy [simp]: "num_vertices (put_ploidy v p g) = num_vertices g"
  by (simp add: num_vertices_def)

lemma num_vertices_put_sex [simp]: "num_vertices (put_sex v s g) = num_vertices g"
  by (simp add: num_vertices_def put_sex_def)

lemma num_vertices_put_type [simp]: "num_vertices (put_type v ty g) = num_vertices g"
  by (simp add: num_vertices_def put_type_def)


lemma wf_graph_put_ploidy [simp]: "wf_graph (put_ploidy v p g) = wf_graph g"
  by (simp add: wf_graph_def)

lemma wf_graph_put_sex [simp]: "wf_graph (put_sex v s g) = wf_graph g"
  by (simp add: wf_graph_def) (simp add: put_sex_def)

lemma wf_graph_put_type [simp]: "wf_graph (put_type v ty g) = wf_graph g"
  by (simp add: wf_graph_def) (simp add: put_type_def)










lemma wf_graph_map_lengths [simp]: "wf_graph (map_lengths h g) = wf_graph g"
  by (simp add: wf_graph_def num_vertices_def)

lemma wf_graph_originals [simp]: "wf_graph (originals g) = wf_graph g"
  by (simp add: wf_graph_def originals_def num_vertices_def)

lemma wf_graph_update_edge_lengths [simp]:
  "wf_graph (update_edge_lengths g a b) = wf_graph (g :: ('l::{plus,times}) graph)"
  by (simp add: update_edge_lengths_originals)












subsection \<open>The junction tree of a successful run\<close>




end
